theory Spec2Isabelle
  imports Main "HOL-Library.Mapping" "HOL-Library.AList_Mapping" "HOL-Library.Word"
begin

section \<open>The LRU cache of \<^verbatim>\<open>solution.cc\<close>\<close>

text \<open>
  \<^verbatim>\<open>network::cache::LRUCache<K, V>\<close> keeps a \<^verbatim>\<open>std::list\<close> of (key, value) pairs,
  most recently used first, and a \<^verbatim>\<open>std::unordered_map\<close> from keys to iterators into
  that list. The embedding keeps both members. A list node has an identity (its address),
  which is what an iterator holds on to while other nodes come and go; the list is
  therefore a HOL list of (node, entry) pairs and an iterator is \<open>Node n\<close> or the
  past-the-end iterator \<open>End\<close>.

  What C++ leaves undefined (erasing through an iterator that points at no node of the
  list, decrementing \<^verbatim>\<open>end()\<close> of an empty list, \<^verbatim>\<open>operator[]\<close> beyond a vector's size)
  is the error value \<open>undefined_behaviour\<close>; exceptions are the other error values. An
  operation returns its outcome together with the cache as the call leaves it, because a
  C++ exception leaves the object as it was at the \<^verbatim>\<open>throw\<close>.

  The members \<^verbatim>\<open>cache_items_list_\<close>, \<^verbatim>\<open>cache_items_map_\<close>, \<^verbatim>\<open>max_size_\<close> and \<^verbatim>\<open>callback_\<close>
  lose their trailing underscore. \<^verbatim>\<open>size_t\<close> values are natural numbers: the only
  arithmetic on them is the comparison \<^verbatim>\<open>Size() > max_size_\<close>.
\<close>

datatype error =
    range_error             \<comment> \<open>thrown by \<^verbatim>\<open>Get\<close>: "There is no such key in cache"\<close>
  | callback_exception      \<comment> \<open>whatever \<^verbatim>\<open>CleanUp\<close> throws\<close>
  | invalid_argument        \<comment> \<open>thrown by \<^verbatim>\<open>std::stoi\<close>: no conversion\<close>
  | out_of_range            \<comment> \<open>thrown by \<^verbatim>\<open>std::stoi\<close>: value outside \<^verbatim>\<open>int\<close>\<close>
  | undefined_behaviour

datatype iterator = Node nat | End

datatype outcome = Returns | Throws

text \<open>
  \<^verbatim>\<open>CleanupCallback::CleanUp\<close> is pure virtual: the cache knows nothing about it but that
  it is called with the entry and either returns or throws. \<open>callback\<close> is \<open>None\<close> for
  the null pointer. The field \<open>cleaned\<close> is not in the source: it records the arguments
  of the calls of \<^verbatim>\<open>CleanUp\<close>, oldest first, so that theorems can count them.
\<close>

record ('k, 'v) LRUCache =
  cache_items_list :: "(nat \<times> 'k \<times> 'v) list"
  cache_items_map :: "('k, iterator) mapping"
  max_size :: nat
  callback :: "('k \<times> 'v \<Rightarrow> outcome) option"
  cleaned :: "('k \<times> 'v) list"

subsection \<open>The operations of \<^verbatim>\<open>std::list\<close> that the cache uses\<close>

definition nodes :: "(nat \<times> 'a) list \<Rightarrow> nat list" where
  "nodes l = map fst l"

text \<open>\<^verbatim>\<open>push_front\<close> allocates a node that is none of the list's current nodes.\<close>

definition new_node :: "(nat \<times> 'a) list \<Rightarrow> nat" where
  "new_node l = Suc (foldr max (nodes l) 0)"

definition push_front :: "'a \<Rightarrow> (nat \<times> 'a) list \<Rightarrow> (nat \<times> 'a) list" where
  "push_front x l = (new_node l, x) # l"

definition list_begin :: "(nat \<times> 'a) list \<Rightarrow> iterator" where
  "list_begin l = (case l of [] \<Rightarrow> End | (n, _) # _ \<Rightarrow> Node n)"

definition deref :: "(nat \<times> 'a) list \<Rightarrow> iterator \<Rightarrow> 'a option" where
  "deref l it = (case it of End \<Rightarrow> None | Node n \<Rightarrow> map_of l n)"

definition erase :: "(nat \<times> 'a) list \<Rightarrow> iterator \<Rightarrow> (nat \<times> 'a) list option" where
  "erase l it =
     (case deref l it of
        None \<Rightarrow> None
      | Some _ \<Rightarrow> Some (filter (\<lambda>p. Node (fst p) \<noteq> it) l))"

text \<open>\<^verbatim>\<open>l.splice(l.begin(), l, it)\<close>: the node of \<open>it\<close> is relinked in front of the list.\<close>

definition splice_begin :: "(nat \<times> 'a) list \<Rightarrow> iterator \<Rightarrow> (nat \<times> 'a) list option" where
  "splice_begin l it =
     (case it of
        End \<Rightarrow> None
      | Node n \<Rightarrow>
          (case map_of l n of
             None \<Rightarrow> None
           | Some x \<Rightarrow> Some ((n, x) # filter (\<lambda>p. fst p \<noteq> n) l)))"

subsection \<open>The cache\<close>

definition new_LRUCache :: "nat \<Rightarrow> ('k \<times> 'v \<Rightarrow> outcome) option \<Rightarrow> ('k, 'v) LRUCache" where
  "new_LRUCache n cb =
     \<lparr>cache_items_list = [], cache_items_map = Mapping.empty, max_size = n,
      callback = cb, cleaned = []\<rparr>"

definition Size :: "('k, 'v) LRUCache \<Rightarrow> nat" where
  "Size c = Mapping.size (cache_items_map c)"

definition Exists :: "('k, 'v) LRUCache \<Rightarrow> 'k \<Rightarrow> bool" where
  "Exists c key \<longleftrightarrow> Mapping.lookup (cache_items_map c) key \<noteq> None"

text \<open>
  \<^verbatim>\<open>if (callback_) callback_->CleanUp(*eldest)\<close>: what the call does with the entry (it
  returns when there is no callback) and what it adds to the record of calls.
\<close>

definition CleanUp :: "('k \<times> 'v \<Rightarrow> outcome) option \<Rightarrow> 'k \<times> 'v \<Rightarrow> outcome" where
  "CleanUp cb e = (case cb of None \<Rightarrow> Returns | Some f \<Rightarrow> f e)"

definition notified :: "('k \<times> 'v \<Rightarrow> outcome) option \<Rightarrow> 'k \<times> 'v \<Rightarrow> ('k \<times> 'v) list" where
  "notified cb e = (case cb of None \<Rightarrow> [] | Some f \<Rightarrow> [e])"

text \<open>
  \<^verbatim>\<open>Evict\<close>: \<^verbatim>\<open>eldest\<close> is the last node; the callback, when there is one, is called on
  its entry before anything is removed, and an exception of the callback leaves
  \<^verbatim>\<open>Evict\<close> at that point.
\<close>

definition Evict :: "('k, 'v) LRUCache \<Rightarrow> (error + unit) \<times> ('k, 'v) LRUCache" where
  "Evict c =
     (case rev (cache_items_list c) of
        [] \<Rightarrow> (Inl undefined_behaviour, c)
      | (n, eldest) # _ \<Rightarrow>
          (let c1 = c\<lparr>cleaned := cleaned c @ notified (callback c) eldest\<rparr>
           in case CleanUp (callback c) eldest of
                Throws \<Rightarrow> (Inl callback_exception, c1)
              | Returns \<Rightarrow>
                  (Inr (),
                   c1\<lparr>cache_items_map := Mapping.delete (fst eldest) (cache_items_map c1),
                      cache_items_list := butlast (cache_items_list c1)\<rparr>)))"

definition Put :: "('k, 'v) LRUCache \<Rightarrow> 'k \<Rightarrow> 'v \<Rightarrow> (error + unit) \<times> ('k, 'v) LRUCache" where
  "Put c key value =
     (case (if Size c \<noteq> 0 \<and> Exists c key then
              (case Mapping.lookup (cache_items_map c) key of
                 None \<Rightarrow> Inl undefined_behaviour
               | Some it \<Rightarrow>
                   (case erase (cache_items_list c) it of
                      None \<Rightarrow> Inl undefined_behaviour
                    | Some l \<Rightarrow>
                        Inr (c\<lparr>cache_items_list := l,
                               cache_items_map := Mapping.delete key (cache_items_map c)\<rparr>)))
            else Inr c) of
        Inl e \<Rightarrow> (Inl e, c)
      | Inr c1 \<Rightarrow>
          (let l = push_front (key, value) (cache_items_list c1);
               c2 = c1\<lparr>cache_items_list := l,
                       cache_items_map := Mapping.update key (list_begin l) (cache_items_map c1)\<rparr>
           in if Size c2 > max_size c2 then Evict c2 else (Inr (), c2)))"

definition Get :: "('k, 'v) LRUCache \<Rightarrow> 'k \<Rightarrow> (error + 'v) \<times> ('k, 'v) LRUCache" where
  "Get c key =
     (if Size c \<noteq> 0 \<and> Exists c key then
        (case Mapping.lookup (cache_items_map c) key of
           None \<Rightarrow> (Inl undefined_behaviour, c)
         | Some it \<Rightarrow>
             (case splice_begin (cache_items_list c) it of
                None \<Rightarrow> (Inl undefined_behaviour, c)
              | Some l \<Rightarrow>
                  (case deref l it of
                     None \<Rightarrow> (Inl undefined_behaviour, c)
                   | Some kv \<Rightarrow> (Inr (snd kv), c\<lparr>cache_items_list := l\<rparr>))))
      else (Inl range_error, c))"

subsection \<open>Notions the theorems are stated with\<close>

text \<open>
  The Recency Sequence as the caller can observe it: the entries of \<^verbatim>\<open>cache_items_list_\<close>
  from the most recently used one to the eldest, without the node identities.
\<close>

definition entries :: "('k, 'v) LRUCache \<Rightarrow> ('k \<times> 'v) list" where
  "entries c = map snd (cache_items_list c)"

text \<open>
  The consistency of the two members: no node occurs twice in the list, and the map
  sends a key to an iterator exactly when that iterator is a node of the list holding
  an entry with this key.
\<close>

definition cache_inv :: "('k, 'v) LRUCache \<Rightarrow> bool" where
  "cache_inv c \<longleftrightarrow>
     distinct (nodes (cache_items_list c)) \<and>
     (\<forall>k it. Mapping.lookup (cache_items_map c) k = Some it \<longleftrightarrow>
        (\<exists>n v. it = Node n \<and> (n, k, v) \<in> set (cache_items_list c)))"

text \<open>
  The states a caller can bring a cache into: it constructs one and calls \<^verbatim>\<open>Put\<close> and
  \<^verbatim>\<open>Get\<close>, going on with the cache as the call left it whether the call returned or
  threw. \<^verbatim>\<open>Exists\<close> and \<^verbatim>\<open>Size\<close> are \<^verbatim>\<open>const\<close>: they lead to no new state.
\<close>

inductive reachable :: "('k, 'v) LRUCache \<Rightarrow> bool" where
  fresh: "reachable (new_LRUCache n cb)"
| after_Put: "reachable c \<Longrightarrow> reachable (snd (Put c key value))"
| after_Get: "reachable c \<Longrightarrow> reachable (snd (Get c key))"

text \<open>
  A caller that makes one \<^verbatim>\<open>Put\<close> after the other: an exception leaves the sequence at
  the call that threw.
\<close>

fun run_puts ::
  "('k, 'v) LRUCache \<Rightarrow> ('k \<times> 'v) list \<Rightarrow> (error + unit) \<times> ('k, 'v) LRUCache" where
  "run_puts c [] = (Inr (), c)"
| "run_puts c ((key, value) # kvs) =
     (case Put c key value of
        (Inl e, c') \<Rightarrow> (Inl e, c')
      | (Inr _, c') \<Rightarrow> run_puts c' kvs)"

section \<open>The keys of \<^verbatim>\<open>TCB\<close>: \<^verbatim>\<open>Combined\<close>, \<^verbatim>\<open>Tokenize\<close> and \<^verbatim>\<open>Retrive\<close>\<close>

text \<open>
  \<^verbatim>\<open>IpAndPortNumberPair\<close> is \<^verbatim>\<open>pair<string, int>\<close>: the port is a 32-bit \<^verbatim>\<open>int\<close>, a word
  read in two's complement by \<open>sint\<close>.
\<close>

type_synonym IpAndPortNumberPair = "string \<times> 32 word"

type_synonym IpAndPortCombinedString = string

subsection \<open>What the standard library does for them\<close>

text \<open>
  \<^verbatim>\<open>ostream << int\<close> in the default format: the decimal digits, most significant first,
  after a minus sign when the number is negative.
\<close>

definition digit_chars :: string where
  "digit_chars = ''0123456789''"

fun show_nat :: "nat \<Rightarrow> string" where
  "show_nat n =
     (if n < 10 then [digit_chars ! n] else show_nat (n div 10) @ [digit_chars ! (n mod 10)])"

definition show_int :: "int \<Rightarrow> string" where
  "show_int i = (if i < 0 then CHR ''-'' # show_nat (nat (- i)) else show_nat (nat i))"

text \<open>
  The positions of \<^verbatim>\<open>std::string\<close>. \<^verbatim>\<open>string::npos\<close> is \<open>None\<close>: it is the largest
  \<^verbatim>\<open>size_t\<close>, a string is shorter, so it is no position of any string.
  \<open>find_from P xs i\<close> is the position of the first element of \<open>xs\<close> with \<open>P\<close>, when \<open>xs\<close>
  starts at position \<open>i\<close>.
\<close>

fun find_from :: "('a \<Rightarrow> bool) \<Rightarrow> 'a list \<Rightarrow> nat \<Rightarrow> nat option" where
  "find_from P [] i = None"
| "find_from P (x # xs) i = (if P x then Some i else find_from P xs (Suc i))"

text \<open>\<^verbatim>\<open>str.find(c, pos)\<close>, called with a position of the string.\<close>

definition find_char :: "string \<Rightarrow> char \<Rightarrow> nat \<Rightarrow> nat option" where
  "find_char str c pos = find_from (\<lambda>x. x = c) (drop pos str) pos"

text \<open>\<^verbatim>\<open>str.find_first_not_of(c, pos)\<close>; from \<^verbatim>\<open>npos\<close> on there is nothing to find.\<close>

definition find_first_not_of :: "string \<Rightarrow> char \<Rightarrow> nat option \<Rightarrow> nat option" where
  "find_first_not_of str c pos =
     (case pos of None \<Rightarrow> None | Some p \<Rightarrow> find_from (\<lambda>x. x \<noteq> c) (drop p str) p)"

text \<open>
  \<^verbatim>\<open>str.substr(start, end - start)\<close> for a position \<open>start\<close> of the string: the characters
  from \<open>start\<close> up to \<open>end\<close>, and up to the end of the string when \<open>end\<close> is \<^verbatim>\<open>npos\<close>
  (the count \<^verbatim>\<open>npos - start\<close> is at least the rest of the string).
\<close>

definition substr :: "string \<Rightarrow> nat \<Rightarrow> nat option \<Rightarrow> string" where
  "substr str start endp =
     (case endp of None \<Rightarrow> drop start str | Some e \<Rightarrow> take (e - start) (drop start str))"

text \<open>
  \<^verbatim>\<open>std::stoi(str)\<close>, which is \<^verbatim>\<open>strtol\<close> in base 10: white space is skipped, then an
  optional sign, then the longest run of digits is the number and what follows is
  ignored. No digit there is \<^verbatim>\<open>std::invalid_argument\<close>, a number outside \<^verbatim>\<open>int\<close> is
  \<^verbatim>\<open>std::out_of_range\<close>.
\<close>

definition isspace :: "char \<Rightarrow> bool" where
  "isspace c \<longleftrightarrow> c \<in> set [CHR 0x20, CHR 0x09, CHR 0x0A, CHR 0x0B, CHR 0x0C, CHR 0x0D]"

definition isdigit :: "char \<Rightarrow> bool" where
  "isdigit c \<longleftrightarrow> c \<in> set digit_chars"

definition digit_value :: "char \<Rightarrow> nat" where
  "digit_value c = of_char c - of_char CHR ''0''"

definition skip_sign :: "string \<Rightarrow> string" where
  "skip_sign s =
     (case s of [] \<Rightarrow> [] | c # r \<Rightarrow> if c = CHR ''-'' \<or> c = CHR ''+'' then r else s)"

definition leading_digits :: "string \<Rightarrow> string" where
  "leading_digits str = takeWhile isdigit (skip_sign (dropWhile isspace str))"

definition stoi :: "string \<Rightarrow> error + 32 word" where
  "stoi str =
     (let s = dropWhile isspace str;
          negative = (case s of [] \<Rightarrow> False | c # _ \<Rightarrow> c = CHR ''-'');
          ds = leading_digits str
      in if ds = [] then Inl invalid_argument
         else
           (let n = int (foldl (\<lambda>a c. 10 * a + digit_value c) 0 ds);
                v = (if negative then - n else n)
            in if v < - (2 ^ 31) \<or> 2 ^ 31 - 1 < v then Inl out_of_range
               else Inr (word_of_int v)))"

text \<open>\<^verbatim>\<open>v[i]\<close> of a \<^verbatim>\<open>std::vector\<close>: not checked, undefined beyond the size.\<close>

definition vector_at :: "'a list \<Rightarrow> nat \<Rightarrow> error + 'a" where
  "vector_at v i = (if i < length v then Inr (v ! i) else Inl undefined_behaviour)"

subsection \<open>The functions of \<^verbatim>\<open>TCB\<close>\<close>

definition Combined :: "IpAndPortNumberPair \<Rightarrow> IpAndPortCombinedString" where
  "Combined key = fst key @ '':'' @ show_int (sint (snd key))"

text \<open>
  The loop of \<^verbatim>\<open>Tokenize\<close>, from a value of \<^verbatim>\<open>start\<close> on; \<^verbatim>\<open>end\<close> is \<open>endp\<close> here.
\<close>

function Tokenize_loop :: "string \<Rightarrow> char \<Rightarrow> nat option \<Rightarrow> string list \<Rightarrow> string list" where
  "Tokenize_loop str delimeter start token_v =
     (case start of
        None \<Rightarrow> token_v
      | Some s \<Rightarrow>
          (let endp = find_char str delimeter s
           in Tokenize_loop str delimeter (find_first_not_of str delimeter endp)
                (token_v @ [substr str s endp])))"
  by pat_completeness auto

termination
proof (relation "measure (\<lambda>(str, d, start, token_v).
         case start of None \<Rightarrow> 0 | Some s \<Rightarrow> Suc (length str - s))")
  show "wf (measure (\<lambda>(str :: string, d :: char, start, token_v :: string list).
         case start of None \<Rightarrow> 0 | Some s \<Rightarrow> Suc (length str - s)))"
    by simp
next
  fix str :: string and delimeter :: char and start token_v s endp
  assume start: "start = Some s" and endp: "endp = find_char str delimeter s"
  have found: "i \<le> j \<and> j < i + length xs \<and> P (xs ! (j - i))"
    if "find_from P xs i = Some j" for P :: "char \<Rightarrow> bool" and xs i j
    using that
  proof (induction xs arbitrary: i)
    case Nil
    then show ?case by simp
  next
    case (Cons x xs)
    show ?case
    proof (cases "P x")
      case True
      with Cons.prems show ?thesis by simp
    next
      case False
      with Cons.prems have "find_from P xs (Suc i) = Some j" by simp
      from Cons.IH [OF this] show ?thesis by (auto simp: nth_Cons')
    qed
  qed
  show "((str, delimeter, find_first_not_of str delimeter endp, token_v @ [substr str s endp]),
         (str, delimeter, start, token_v))
        \<in> measure (\<lambda>(str, d, start, token_v).
             case start of None \<Rightarrow> 0 | Some s \<Rightarrow> Suc (length str - s))"
  proof (cases "find_first_not_of str delimeter endp")
    case None
    then show ?thesis by (simp add: start)
  next
    case (Some s')
    then obtain e where e: "endp = Some e"
      and f: "find_from (\<lambda>x. x \<noteq> delimeter) (drop e str) e = Some s'"
      by (auto simp: find_first_not_of_def split: option.splits)
    from found [OF f] have 1: "e \<le> s'" "s' < length str" "str ! s' \<noteq> delimeter"
      by auto
    from endp e have "find_from (\<lambda>x. x = delimeter) (drop s str) s = Some e"
      by (simp add: find_char_def)
    from found [OF this] 1 have 2: "s \<le> e" "str ! e = delimeter"
      by auto
    from 1 2 have "s < s'" by (cases "e = s'") auto
    with 1 show ?thesis by (simp add: start Some)
  qed
qed

definition Tokenize :: "string \<Rightarrow> char \<Rightarrow> string list" where
  "Tokenize str delimeter =
     Tokenize_loop str delimeter (find_first_not_of str delimeter (Some 0)) []"

definition Retrive :: "IpAndPortCombinedString \<Rightarrow> error + IpAndPortNumberPair" where
  "Retrive key =
     (let strs = Tokenize key CHR '':'' in
      case vector_at strs 0 of
        Inl e \<Rightarrow> Inl e
      | Inr host \<Rightarrow>
          (case vector_at strs 1 of
             Inl e \<Rightarrow> Inl e
           | Inr port_str \<Rightarrow>
               (case stoi port_str of
                  Inl e \<Rightarrow> Inl e
                | Inr port \<Rightarrow> Inr (host, port))))"

section \<open>The cache keeps its two members consistent\<close>

lemma foldr_max_ge: "n \<in> set ns \<Longrightarrow> n \<le> foldr max ns (b::nat)"
  by (induction ns) (auto simp: max_def)

lemma new_node_fresh: "new_node l \<notin> set (nodes l)"
  using foldr_max_ge [of "new_node l" "nodes l" 0] by (auto simp: new_node_def)

lemma new_node_fresh': "(new_node l, x) \<notin> set l"
  using new_node_fresh [of l] by (force simp: nodes_def)

lemma inv_lookupI:
  "cache_inv c \<Longrightarrow> (n, k, v) \<in> set (cache_items_list c) \<Longrightarrow>
   Mapping.lookup (cache_items_map c) k = Some (Node n)"
  unfolding cache_inv_def by blast

lemma inv_lookupD:
  "cache_inv c \<Longrightarrow> Mapping.lookup (cache_items_map c) k = Some it \<Longrightarrow>
   \<exists>n v. it = Node n \<and> (n, k, v) \<in> set (cache_items_list c)"
  unfolding cache_inv_def by blast

lemma inv_distinct_nodes: "cache_inv c \<Longrightarrow> distinct (map fst (cache_items_list c))"
  by (simp add: cache_inv_def nodes_def)

lemma inv_unique_node:
  assumes "cache_inv c" "(n, k, v) \<in> set (cache_items_list c)" "(n', k, v') \<in> set (cache_items_list c)"
  shows "n' = n \<and> v' = v"
proof -
  have "Mapping.lookup (cache_items_map c) k = Some (Node n)"
    "Mapping.lookup (cache_items_map c) k = Some (Node n')"
    using inv_lookupI [OF assms(1,2)] inv_lookupI [OF assms(1,3)] by simp_all
  then have n: "n' = n" by simp
  have "(k, v') = (k, v)"
    using eq_key_imp_eq_value [OF inv_distinct_nodes [OF assms(1)] assms(3) [unfolded n] assms(2)] .
  with n show ?thesis by simp
qed

lemma inv_distinct_keys:
  assumes "cache_inv c"
  shows "distinct (map fst (entries c))"
proof -
  have d: "distinct (cache_items_list c)"
    using inv_distinct_nodes [OF assms] by (simp add: distinct_map)
  have "inj_on (fst \<circ> snd) (set (cache_items_list c))"
  proof (rule inj_onI)
    fix x y
    assume x: "x \<in> set (cache_items_list c)" and y: "y \<in> set (cache_items_list c)"
      and e: "(fst \<circ> snd) x = (fst \<circ> snd) y"
    obtain n k v where x': "x = (n, k, v)" by (cases x) auto
    obtain n' k' v' where y': "y = (n', k', v')" by (cases y) auto
    from e x' y' have "k' = k" by simp
    with inv_unique_node [OF assms, of n k v n' v'] x y x' y' show "x = y" by simp
  qed
  with d show ?thesis
    by (simp add: entries_def distinct_map)
qed

lemma inv_keys:
  assumes "cache_inv c"
  shows "Mapping.keys (cache_items_map c) = fst ` set (entries c)"
proof (rule set_eqI)
  fix k
  show "k \<in> Mapping.keys (cache_items_map c) \<longleftrightarrow> k \<in> fst ` set (entries c)"
  proof
    assume "k \<in> Mapping.keys (cache_items_map c)"
    then obtain it where "Mapping.lookup (cache_items_map c) k = Some it"
      by (auto dest: in_keysD)
    from inv_lookupD [OF assms this] obtain n v where "(n, k, v) \<in> set (cache_items_list c)"
      by blast
    then have "(k, v) \<in> set (entries c)" by (force simp: entries_def)
    then show "k \<in> fst ` set (entries c)" by force
  next
    assume "k \<in> fst ` set (entries c)"
    then obtain n v where "(n, k, v) \<in> set (cache_items_list c)"
      by (auto simp: entries_def)
    from inv_lookupI [OF assms this] show "k \<in> Mapping.keys (cache_items_map c)"
      by (simp add: keys_dom_lookup dom_def)
  qed
qed

lemma inv_Size:
  assumes "cache_inv c"
  shows "Size c = length (entries c)"
proof -
  have "Size c = card (set (map fst (entries c)))"
    by (simp add: Size_def Mapping.size_def inv_keys [OF assms])
  also have "\<dots> = length (map fst (entries c))"
    using inv_distinct_keys [OF assms] by (rule distinct_card)
  finally show ?thesis by simp
qed

lemma inv_Exists:
  assumes "cache_inv c"
  shows "Exists c k \<longleftrightarrow> k \<in> fst ` set (entries c)"
  using inv_keys [OF assms] by (simp add: Exists_def keys_dom_lookup dom_def set_eq_iff)

lemma inv_node_key:
  assumes "cache_inv c" "(n, k, v) \<in> set (cache_items_list c)" "p \<in> set (cache_items_list c)"
  shows "fst p = n \<longleftrightarrow> fst (snd p) = k"
proof
  assume "fst p = n"
  then have "(n, snd p) \<in> set (cache_items_list c)" using assms(3) by (cases p) auto
  from eq_key_imp_eq_value [OF inv_distinct_nodes [OF assms(1)] this assms(2)]
  show "fst (snd p) = k" by simp
next
  assume "fst (snd p) = k"
  then have "(fst p, k, snd (snd p)) \<in> set (cache_items_list c)" using assms(3) by (cases p) auto
  from inv_unique_node [OF assms(1,2) this] show "fst p = n" by simp
qed

lemma inv_remove:
  assumes inv: "cache_inv c" and mem: "(n, k, v) \<in> set (cache_items_list c)"
    and l': "cache_items_list c' = filter (\<lambda>p. fst p \<noteq> n) (cache_items_list c)"
    and m': "cache_items_map c' = Mapping.delete k (cache_items_map c)"
  shows "cache_inv c'" and "entries c' = filter (\<lambda>e. fst e \<noteq> k) (entries c)"
proof -
  have eq: "filter (\<lambda>p. fst p \<noteq> n) (cache_items_list c) =
            filter (\<lambda>p. fst (snd p) \<noteq> k) (cache_items_list c)"
    by (rule filter_cong [OF refl]) (simp add: inv_node_key [OF inv mem])
  show "entries c' = filter (\<lambda>e. fst e \<noteq> k) (entries c)"
    by (simp add: entries_def l' eq filter_map comp_def)
  have d: "distinct (nodes (cache_items_list c'))"
    using inv_distinct_nodes [OF inv] by (simp add: l' nodes_def distinct_map_filter)
  have "Mapping.lookup (cache_items_map c') k' = Some it \<longleftrightarrow>
        (\<exists>n' v'. it = Node n' \<and> (n', k', v') \<in> set (cache_items_list c'))" for k' it
  proof (cases "k' = k")
    case True
    then show ?thesis by (auto simp: m' l' eq)
  next
    case False
    have "Mapping.lookup (cache_items_map c') k' = Some it \<longleftrightarrow>
          Mapping.lookup (cache_items_map c) k' = Some it"
      using False by (simp add: m')
    also have "\<dots> \<longleftrightarrow> (\<exists>n' v'. it = Node n' \<and> (n', k', v') \<in> set (cache_items_list c))"
      using inv unfolding cache_inv_def by blast
    also have "\<dots> \<longleftrightarrow> (\<exists>n' v'. it = Node n' \<and> (n', k', v') \<in> set (cache_items_list c'))"
      using False by (simp add: l' eq)
    finally show ?thesis .
  qed
  with d show "cache_inv c'" unfolding cache_inv_def by blast
qed

lemma inv_insert:
  assumes inv: "cache_inv c" and new: "\<not> Exists c k"
    and l': "cache_items_list c' = push_front (k, v) (cache_items_list c)"
    and m': "cache_items_map c' =
             Mapping.update k (list_begin (push_front (k, v) (cache_items_list c))) (cache_items_map c)"
  shows "cache_inv c'" and "entries c' = (k, v) # entries c"
proof -
  let ?n = "new_node (cache_items_list c)"
  show "entries c' = (k, v) # entries c"
    by (simp add: entries_def l' push_front_def)
  have "list_begin (push_front (k, v) (cache_items_list c)) = Node ?n"
    by (simp add: list_begin_def push_front_def)
  with m' have m'': "cache_items_map c' = Mapping.update k (Node ?n) (cache_items_map c)"
    by simp
  have d: "distinct (nodes (cache_items_list c'))"
    using inv_distinct_nodes [OF inv] new_node_fresh [of "cache_items_list c"]
    by (simp add: l' nodes_def push_front_def)
  have nok: "(n', k, v') \<notin> set (cache_items_list c)" for n' v'
    using new inv_lookupI [OF inv, of n' k v'] by (auto simp: Exists_def)
  have "Mapping.lookup (cache_items_map c') k' = Some it \<longleftrightarrow>
        (\<exists>n' v'. it = Node n' \<and> (n', k', v') \<in> set (cache_items_list c'))" for k' it
  proof (cases "k' = k")
    case True
    then show ?thesis using nok by (auto simp: m'' l' push_front_def)
  next
    case False
    have "Mapping.lookup (cache_items_map c') k' = Some it \<longleftrightarrow>
          Mapping.lookup (cache_items_map c) k' = Some it"
      using False by (simp add: m'')
    also have "\<dots> \<longleftrightarrow> (\<exists>n' v'. it = Node n' \<and> (n', k', v') \<in> set (cache_items_list c))"
      using inv unfolding cache_inv_def by blast
    also have "\<dots> \<longleftrightarrow> (\<exists>n' v'. it = Node n' \<and> (n', k', v') \<in> set (cache_items_list c'))"
      using False by (simp add: l' push_front_def)
    finally show ?thesis .
  qed
  with d show "cache_inv c'" unfolding cache_inv_def by blast
qed

lemma Evict_snoc:
  assumes "cache_items_list c = xs @ [(n, e)]"
  shows "Evict c =
    (case CleanUp (callback c) e of
       Throws \<Rightarrow> (Inl callback_exception, c\<lparr>cleaned := cleaned c @ notified (callback c) e\<rparr>)
     | Returns \<Rightarrow>
         (Inr (), c\<lparr>cleaned := cleaned c @ notified (callback c) e,
                    cache_items_map := Mapping.delete (fst e) (cache_items_map c),
                    cache_items_list := xs\<rparr>))"
  using assms by (simp add: Evict_def Let_def split: outcome.splits)

lemma Evict_inv:
  assumes inv: "cache_inv c" and ne: "entries c \<noteq> []"
  shows "cache_inv (snd (Evict c))"
    and "max_size (snd (Evict c)) = max_size c"
    and "callback (snd (Evict c)) = callback c"
    and "cleaned (snd (Evict c)) = cleaned c @ notified (callback c) (last (entries c))"
    and "CleanUp (callback c) (last (entries c)) = Returns \<Longrightarrow>
           fst (Evict c) = Inr () \<and> entries (snd (Evict c)) = butlast (entries c)"
    and "CleanUp (callback c) (last (entries c)) = Throws \<Longrightarrow>
           fst (Evict c) = Inl callback_exception \<and> entries (snd (Evict c)) = entries c"
proof -
  from ne have "cache_items_list c \<noteq> []" by (simp add: entries_def)
  then obtain xs n e where l: "cache_items_list c = xs @ [(n, e)]"
    by (metis rev_exhaust surj_pair)
  have e: "last (entries c) = e" by (simp add: entries_def l)
  note ev = Evict_snoc [OF l]
  have xs: "xs = filter (\<lambda>p. fst p \<noteq> n) (cache_items_list c)"
    using inv_distinct_nodes [OF inv] by (auto simp: l intro!: filter_True [symmetric])
  let ?c' = "c\<lparr>cleaned := cleaned c @ notified (callback c) e,
                cache_items_map := Mapping.delete (fst e) (cache_items_map c),
                cache_items_list := xs\<rparr>"
  have "(n, fst e, snd e) \<in> set (cache_items_list c)" by (simp add: l)
  from inv_remove(1) [OF inv this, of ?c'] xs have inv': "cache_inv ?c'" by simp
  have inv'': "cache_inv (c\<lparr>cleaned := cleaned c @ notified (callback c) e\<rparr>)"
    using inv by (simp add: cache_inv_def)
  show "cache_inv (snd (Evict c))"
    using inv' inv'' by (simp add: ev split: outcome.splits)
  show "max_size (snd (Evict c)) = max_size c"
    by (simp add: ev split: outcome.splits)
  show "callback (snd (Evict c)) = callback c"
    by (simp add: ev split: outcome.splits)
  show "cleaned (snd (Evict c)) = cleaned c @ notified (callback c) (last (entries c))"
    by (simp add: ev e split: outcome.splits)
  show "CleanUp (callback c) (last (entries c)) = Returns \<Longrightarrow>
           fst (Evict c) = Inr () \<and> entries (snd (Evict c)) = butlast (entries c)"
    using e by (simp add: ev entries_def l)
  show "CleanUp (callback c) (last (entries c)) = Throws \<Longrightarrow>
           fst (Evict c) = Inl callback_exception \<and> entries (snd (Evict c)) = entries c"
    using e by (simp add: ev entries_def)
qed

lemma inv_entry_node:
  assumes "cache_inv c" "(k, v) \<in> set (entries c)"
  obtains n where "(n, k, v) \<in> set (cache_items_list c)"
    and "Mapping.lookup (cache_items_map c) k = Some (Node n)"
    and "map_of (cache_items_list c) n = Some (k, v)"
proof -
  from assms(2) obtain n where n: "(n, k, v) \<in> set (cache_items_list c)"
    by (auto simp: entries_def)
  moreover note inv_lookupI [OF assms(1) n]
  moreover have "map_of (cache_items_list c) n = Some (k, v)"
    using inv_distinct_nodes [OF assms(1)] n by (rule map_of_is_SomeI)
  ultimately show thesis by (rule that)
qed

lemma Put_split:
  assumes inv: "cache_inv c"
  obtains c2 where
    "Put c k v = (if Size c2 > max_size c2 then Evict c2 else (Inr (), c2))"
    "cache_inv c2"
    "entries c2 = (k, v) # filter (\<lambda>e. fst e \<noteq> k) (entries c)"
    "max_size c2 = max_size c" "callback c2 = callback c" "cleaned c2 = cleaned c"
proof (cases "Exists c k")
  case True
  then obtain v0 where "(k, v0) \<in> set (entries c)"
    by (auto simp: inv_Exists [OF inv])
  from inv_entry_node [OF inv this] obtain n where
    n: "(n, k, v0) \<in> set (cache_items_list c)"
    and lk: "Mapping.lookup (cache_items_map c) k = Some (Node n)"
    and mo: "map_of (cache_items_list c) n = Some (k, v0)" .
  have sz: "Size c \<noteq> 0"
    using n by (auto simp: inv_Size [OF inv] entries_def)
  let ?l1 = "filter (\<lambda>p. fst p \<noteq> n) (cache_items_list c)"
  let ?c1 = "c\<lparr>cache_items_list := ?l1,
               cache_items_map := Mapping.delete k (cache_items_map c)\<rparr>"
  have er: "erase (cache_items_list c) (Node n) = Some ?l1"
    by (simp add: erase_def deref_def mo)
  have inv1: "cache_inv ?c1" and e1: "entries ?c1 = filter (\<lambda>e. fst e \<noteq> k) (entries c)"
    using inv_remove [OF inv n, of ?c1] by simp_all
  have new: "\<not> Exists ?c1 k" by (simp add: Exists_def)
  let ?l2 = "push_front (k, v) ?l1"
  let ?c2 = "?c1\<lparr>cache_items_list := ?l2,
                 cache_items_map := Mapping.update k (list_begin ?l2) (cache_items_map ?c1)\<rparr>"
  have inv2: "cache_inv ?c2" and e2: "entries ?c2 = (k, v) # entries ?c1"
    using inv_insert [OF inv1 new, of ?c2 v] by simp_all
  have e2': "entries ?c2 = (k, v) # filter (\<lambda>e. fst e \<noteq> k) (entries c)"
    using e2 e1 by simp
  have "Put c k v = (if Size ?c2 > max_size ?c2 then Evict ?c2 else (Inr (), ?c2))"
    using True sz by (simp add: Put_def lk er Let_def)
  from that [OF this inv2 e2'] show thesis by simp
next
  case False
  let ?l2 = "push_front (k, v) (cache_items_list c)"
  let ?c2 = "c\<lparr>cache_items_list := ?l2,
               cache_items_map := Mapping.update k (list_begin ?l2) (cache_items_map c)\<rparr>"
  have inv2: "cache_inv ?c2" and e2: "entries ?c2 = (k, v) # entries c"
    using inv_insert [OF inv False, of ?c2 v] by simp_all
  have "filter (\<lambda>e. fst e \<noteq> k) (entries c) = entries c"
    using False by (auto simp: inv_Exists [OF inv] intro!: filter_True)
  with e2 have e2': "entries ?c2 = (k, v) # filter (\<lambda>e. fst e \<noteq> k) (entries c)" by simp
  have "Put c k v = (if Size ?c2 > max_size ?c2 then Evict ?c2 else (Inr (), ?c2))"
    using False by (simp add: Put_def Let_def)
  from that [OF this inv2 e2'] show thesis by simp
qed

lemma Put_inv:
  assumes inv: "cache_inv c"
  shows "cache_inv (snd (Put c k v))"
    and "max_size (snd (Put c k v)) = max_size c"
    and "callback (snd (Put c k v)) = callback c"
proof -
  from Put_split [OF inv, of k v] obtain c2 where
    p: "Put c k v = (if Size c2 > max_size c2 then Evict c2 else (Inr (), c2))"
    and i2: "cache_inv c2"
    and e2: "entries c2 = (k, v) # filter (\<lambda>e. fst e \<noteq> k) (entries c)"
    and f2: "max_size c2 = max_size c" "callback c2 = callback c" .
  from e2 have ne: "entries c2 \<noteq> []" by simp
  show "cache_inv (snd (Put c k v))"
    using i2 Evict_inv(1) [OF i2 ne] by (simp add: p)
  show "max_size (snd (Put c k v)) = max_size c"
    using f2 Evict_inv(2) [OF i2 ne] by (simp add: p)
  show "callback (snd (Put c k v)) = callback c"
    using f2 Evict_inv(3) [OF i2 ne] by (simp add: p)
qed

lemma Put_fits:
  assumes inv: "cache_inv c"
    and fits: "length (filter (\<lambda>e. fst e \<noteq> k) (entries c)) < max_size c"
  shows "fst (Put c k v) = Inr ()"
    and "entries (snd (Put c k v)) = (k, v) # filter (\<lambda>e. fst e \<noteq> k) (entries c)"
    and "cleaned (snd (Put c k v)) = cleaned c"
proof -
  from Put_split [OF inv, of k v] obtain c2 where
    p: "Put c k v = (if Size c2 > max_size c2 then Evict c2 else (Inr (), c2))"
    and i2: "cache_inv c2"
    and e2: "entries c2 = (k, v) # filter (\<lambda>e. fst e \<noteq> k) (entries c)"
    and f2: "max_size c2 = max_size c" "cleaned c2 = cleaned c" .
  have "\<not> Size c2 > max_size c2"
    using fits by (simp add: inv_Size [OF i2] e2 f2)
  then have q: "Put c k v = (Inr (), c2)" by (simp add: p)
  show "fst (Put c k v) = Inr ()" by (simp add: q)
  show "entries (snd (Put c k v)) = (k, v) # filter (\<lambda>e. fst e \<noteq> k) (entries c)"
    by (simp add: q e2)
  show "cleaned (snd (Put c k v)) = cleaned c" by (simp add: q f2)
qed

lemma Put_evicts:
  fixes v :: 'v
  assumes inv: "cache_inv c"
    and full: "max_size c \<le> length (filter (\<lambda>e. fst e \<noteq> k) (entries c))"
  defines "es \<equiv> (k, v) # filter (\<lambda>e. fst e \<noteq> k) (entries c)"
  shows "cleaned (snd (Put c k v)) = cleaned c @ notified (callback c) (last es)"
    and "CleanUp (callback c) (last es) = Returns \<Longrightarrow>
           fst (Put c k v) = Inr () \<and> entries (snd (Put c k v)) = butlast es"
    and "CleanUp (callback c) (last es) = Throws \<Longrightarrow>
           fst (Put c k v) = Inl callback_exception \<and> entries (snd (Put c k v)) = es"
proof -
  from Put_split [OF inv, of k v] obtain c2 where
    p: "Put c k v = (if Size c2 > max_size c2 then Evict c2 else (Inr (), c2))"
    and i2: "cache_inv c2"
    and e2: "entries c2 = es"
    and f2: "max_size c2 = max_size c" "callback c2 = callback c" "cleaned c2 = cleaned c"
    unfolding es_def .
  have ne: "entries c2 \<noteq> []" by (simp add: e2 es_def)
  have "Size c2 > max_size c2"
    using full by (simp add: inv_Size [OF i2] e2 f2 es_def)
  then have q: "Put c k v = Evict c2" by (simp add: p)
  note ev = Evict_inv [OF i2 ne, unfolded e2 f2]
  show "cleaned (snd (Put c k v)) = cleaned c @ notified (callback c) (last es)"
    unfolding q by (rule ev(4))
  show "CleanUp (callback c) (last es) = Returns \<Longrightarrow>
           fst (Put c k v) = Inr () \<and> entries (snd (Put c k v)) = butlast es"
    unfolding q by (rule ev(5))
  show "CleanUp (callback c) (last es) = Throws \<Longrightarrow>
           fst (Put c k v) = Inl callback_exception \<and> entries (snd (Put c k v)) = es"
    unfolding q by (rule ev(6))
qed

lemma cache_inv_relink:
  "cache_inv c \<Longrightarrow> cache_items_map c' = cache_items_map c \<Longrightarrow>
   set (cache_items_list c') = set (cache_items_list c) \<Longrightarrow>
   distinct (nodes (cache_items_list c')) \<Longrightarrow> cache_inv c'"
  by (simp add: cache_inv_def)

lemma Get_absent: "\<not> Exists c k \<Longrightarrow> Get c k = (Inl range_error, c)"
  by (simp add: Get_def)

lemma Get_present:
  assumes inv: "cache_inv c" and mem: "(k, v) \<in> set (entries c)"
  obtains l where "Get c k = (Inr v, c\<lparr>cache_items_list := l\<rparr>)"
    and "cache_inv (c\<lparr>cache_items_list := l\<rparr>)"
    and "map snd l = (k, v) # filter (\<lambda>e. fst e \<noteq> k) (entries c)"
proof -
  from inv_entry_node [OF inv mem] obtain n where
    n: "(n, k, v) \<in> set (cache_items_list c)"
    and lk: "Mapping.lookup (cache_items_map c) k = Some (Node n)"
    and mo: "map_of (cache_items_list c) n = Some (k, v)" .
  have sz: "Size c \<noteq> 0"
    using mem by (auto simp: inv_Size [OF inv])
  have ex: "Exists c k" by (simp add: Exists_def lk)
  let ?l = "(n, k, v) # filter (\<lambda>p. fst p \<noteq> n) (cache_items_list c)"
  let ?c' = "c\<lparr>cache_items_list := ?l\<rparr>"
  have sp: "splice_begin (cache_items_list c) (Node n) = Some ?l"
    by (simp add: splice_begin_def mo)
  have g: "Get c k = (Inr v, ?c')"
    using sz ex by (simp add: Get_def lk sp deref_def)
  have d: "distinct (nodes ?l)"
    using inv_distinct_nodes [OF inv] by (auto simp: nodes_def distinct_map_filter)
  have u: "p = (n, k, v)" if "p \<in> set (cache_items_list c)" "fst p = n" for p
  proof -
    from that have "(n, snd p) \<in> set (cache_items_list c)" by (cases p) auto
    from eq_key_imp_eq_value [OF inv_distinct_nodes [OF inv] this n] that(2)
    show ?thesis by (cases p) auto
  qed
  have s: "set ?l = set (cache_items_list c)"
  proof (rule set_eqI)
    fix p show "p \<in> set ?l \<longleftrightarrow> p \<in> set (cache_items_list c)"
      using n u [of p] by (cases "fst p = n") auto
  qed
  have i: "cache_inv ?c'"
    by (rule cache_inv_relink [OF inv]) (use d s in simp_all)
  have "filter (\<lambda>p. fst p \<noteq> n) (cache_items_list c) =
        filter (\<lambda>p. fst (snd p) \<noteq> k) (cache_items_list c)"
    by (rule filter_cong [OF refl]) (simp add: inv_node_key [OF inv n])
  then have e: "map snd ?l = (k, v) # filter (\<lambda>e. fst e \<noteq> k) (entries c)"
    by (simp add: entries_def filter_map comp_def)
  from g i e show thesis by (rule that)
qed

lemma new_inv: "cache_inv (new_LRUCache n cb)"
  by (simp add: cache_inv_def new_LRUCache_def nodes_def)

lemma Get_inv:
  assumes "cache_inv c"
  shows "cache_inv (snd (Get c k))"
proof (cases "Exists c k")
  case True
  then obtain v where "(k, v) \<in> set (entries c)"
    by (auto simp: inv_Exists [OF assms])
  from Get_present [OF assms this] show ?thesis by (metis snd_conv)
next
  case False
  then show ?thesis using assms by (simp add: Get_absent)
qed

lemma reachable_inv: "reachable c \<Longrightarrow> cache_inv c"
  by (induction rule: reachable.induct) (simp_all add: new_inv Put_inv(1) Get_inv)

section \<open>Sequences of calls\<close>

lemma filter_key_absent:
  "k \<notin> fst ` set es \<Longrightarrow> filter (\<lambda>e. fst e \<noteq> k) es = es"
  by (induction es) auto

lemma filter_key_length:
  "distinct (map fst es) \<Longrightarrow> k \<in> fst ` set es \<Longrightarrow>
   Suc (length (filter (\<lambda>e. fst e \<noteq> k) es)) = length es"
proof (induction es)
  case Nil
  then show ?case by simp
next
  case (Cons e es)
  show ?case
  proof (cases "fst e = k")
    case True
    with Cons.prems have "k \<notin> fst ` set es" by auto
    with True show ?thesis by (simp add: filter_key_absent)
  next
    case False
    with Cons show ?thesis by auto
  qed
qed

lemma Put_within:
  assumes inv: "cache_inv c" and le: "Size c \<le> max_size c"
    and nt: "fst (Put c k v) \<noteq> Inl callback_exception"
  shows "fst (Put c k v) = Inr () \<and> Size (snd (Put c k v)) \<le> max_size c"
proof -
  let ?f = "filter (\<lambda>e. fst e \<noteq> k) (entries c)"
  note sz = inv_Size [OF Put_inv(1) [OF inv, of k v]]
  show ?thesis
  proof (cases "length ?f < max_size c")
    case True
    from Put_fits [OF inv True, of v] show ?thesis
      using True by (simp add: sz)
  next
    case False
    then have full: "max_size c \<le> length ?f" by simp
    note ev = Put_evicts [OF inv full, of v]
    from nt ev(3) have "CleanUp (callback c) (last ((k, v) # ?f)) = Returns"
      by (cases "CleanUp (callback c) (last ((k, v) # ?f))") auto
    from ev(2) [OF this] have "fst (Put c k v) = Inr ()"
      and "entries (snd (Put c k v)) = butlast ((k, v) # ?f)" by simp_all
    moreover have "length ?f \<le> max_size c"
      using le length_filter_le [of "\<lambda>e. fst e \<noteq> k" "entries c"]
      unfolding inv_Size [OF inv] by (rule le_trans [rotated])
    ultimately show ?thesis by (simp add: sz)
  qed
qed

lemma run_puts_within:
  assumes "cache_inv c" "Size c \<le> max_size c"
    and "fst (run_puts c kvs) \<noteq> Inl callback_exception"
  shows "fst (run_puts c (take i kvs)) = Inr () \<and>
         Size (snd (run_puts c (take i kvs))) \<le> max_size c"
  using assms
proof (induction kvs arbitrary: c i)
  case Nil
  then show ?case by simp
next
  case (Cons kv kvs)
  obtain k v where kv: "kv = (k, v)" by (cases kv)
  obtain r c' where p: "Put c k v = (r, c')" by (cases "Put c k v")
  from Cons.prems(3) have "r \<noteq> Inl callback_exception"
    by (auto simp: kv p split: sum.splits)
  with Put_within [OF Cons.prems(1,2), of k v] p
  have r: "r = Inr ()" and le: "Size c' \<le> max_size c" by simp_all
  have inv': "cache_inv c'" and m: "max_size c' = max_size c"
    using Put_inv(1,2) [OF Cons.prems(1), of k v] by (simp_all add: p)
  from Cons.prems(3) have nt: "fst (run_puts c' kvs) \<noteq> Inl callback_exception"
    by (simp add: kv p r)
  show ?case
  proof (cases i)
    case 0
    then show ?thesis using Cons.prems(2) by simp
  next
    case (Suc j)
    from Cons.IH [OF inv' _ nt, of j] le m show ?thesis
      by (simp add: Suc kv p r)
  qed
qed

lemma present_entry:
  assumes "cache_inv c" "Exists c k"
  obtains v where "(k, v) \<in> set (entries c)"
  using assms by (auto simp: inv_Exists)

lemma Put_present_fits:
  assumes inv: "cache_inv c" and le: "Size c \<le> max_size c" and ex: "Exists c k"
  shows "length (filter (\<lambda>e. fst e \<noteq> k) (entries c)) < max_size c"
proof -
  from ex have "k \<in> fst ` set (entries c)" by (simp add: inv_Exists [OF inv])
  from filter_key_length [OF inv_distinct_keys [OF inv] this] le
  show ?thesis by (simp add: inv_Size [OF inv])
qed

lemma Put_fits_state:
  assumes inv: "cache_inv c"
    and fits: "length (filter (\<lambda>e. fst e \<noteq> k) (entries c)) < max_size c"
  shows "fst (Put c k v) = Inr () \<and>
         cache_inv (snd (Put c k v)) \<and>
         entries (snd (Put c k v)) = (k, v) # filter (\<lambda>e. fst e \<noteq> k) (entries c) \<and>
         cleaned (snd (Put c k v)) = cleaned c \<and>
         max_size (snd (Put c k v)) = max_size c \<and>
         callback (snd (Put c k v)) = callback c"
  using Put_fits [OF inv fits, of v] Put_inv [OF inv, of k v] by simp

lemma Put_evicts_state:
  fixes v :: 'v
  assumes inv: "cache_inv c"
    and full: "max_size c \<le> length (filter (\<lambda>e. fst e \<noteq> k) (entries c))"
    and ret: "CleanUp (callback c) (last ((k, v) # filter (\<lambda>e. fst e \<noteq> k) (entries c))) = Returns"
  shows "fst (Put c k v) = Inr () \<and>
         cache_inv (snd (Put c k v)) \<and>
         entries (snd (Put c k v)) = butlast ((k, v) # filter (\<lambda>e. fst e \<noteq> k) (entries c)) \<and>
         cleaned (snd (Put c k v)) =
           cleaned c @ notified (callback c) (last ((k, v) # filter (\<lambda>e. fst e \<noteq> k) (entries c))) \<and>
         max_size (snd (Put c k v)) = max_size c \<and>
         callback (snd (Put c k v)) = callback c"
  using Put_evicts(1) [OF inv full, of v] Put_evicts(2) [OF inv full ret] Put_inv [OF inv, of k v]
  by simp

lemma new_entries [simp]: "entries (new_LRUCache n cb) = []"
  by (simp add: entries_def new_LRUCache_def)

lemma new_fields [simp]:
  "max_size (new_LRUCache n cb) = n" "callback (new_LRUCache n cb) = cb"
  "cleaned (new_LRUCache n cb) = []"
  by (simp_all add: new_LRUCache_def)

lemma run_puts_fill:
  assumes "cache_inv c" "distinct (map fst kvs)"
    and "fst ` set kvs \<inter> fst ` set (entries c) = {}"
    and "length (entries c) + length kvs \<le> max_size c"
  shows "fst (run_puts c kvs) = Inr () \<and>
         cache_inv (snd (run_puts c kvs)) \<and>
         entries (snd (run_puts c kvs)) = rev kvs @ entries c \<and>
         cleaned (snd (run_puts c kvs)) = cleaned c \<and>
         max_size (snd (run_puts c kvs)) = max_size c \<and>
         callback (snd (run_puts c kvs)) = callback c"
  using assms
proof (induction kvs arbitrary: c)
  case Nil
  then show ?case by simp
next
  case (Cons kv kvs)
  obtain k v where kv: "kv = (k, v)" by (cases kv)
  have new: "k \<notin> fst ` set (entries c)"
    using Cons.prems(3) by (auto simp: kv)
  then have f: "filter (\<lambda>e. fst e \<noteq> k) (entries c) = entries c"
    by (rule filter_key_absent)
  have "length (filter (\<lambda>e. fst e \<noteq> k) (entries c)) < max_size c"
    unfolding f using Cons.prems(4) by simp
  note st = Put_fits_state [OF Cons.prems(1) this, of v, unfolded f]
  obtain r c' where p: "Put c k v = (r, c')" by (cases "Put c k v")
  from st have r: "r = Inr ()" and i': "cache_inv c'" and e': "entries c' = (k, v) # entries c"
    and o': "cleaned c' = cleaned c" "max_size c' = max_size c" "callback c' = callback c"
    by (simp_all add: p)
  have d: "distinct (map fst kvs)" using Cons.prems(2) by simp
  have dj: "fst ` set kvs \<inter> fst ` set (entries c') = {}"
    using Cons.prems(2,3) by (auto simp: e' kv)
  have ln: "length (entries c') + length kvs \<le> max_size c'"
    using Cons.prems(4) by (simp add: e' o')
  from Cons.IH [OF i' d dj ln] show ?case
    by (simp add: kv p r e' o')
qed

lemma run_puts_capacity_zero:
  assumes "cache_inv c" "max_size c = 0" "entries c = []"
    and "list_all (\<lambda>e. CleanUp (callback c) e = Returns) kvs"
  shows "fst (run_puts c kvs) = Inr () \<and>
         entries (snd (run_puts c kvs)) = [] \<and>
         Size (snd (run_puts c kvs)) = 0 \<and>
         cleaned (snd (run_puts c kvs)) = cleaned c @ concat (map (notified (callback c)) kvs)"
  using assms
proof (induction kvs arbitrary: c)
  case Nil
  then show ?case by (simp add: inv_Size)
next
  case (Cons kv kvs)
  obtain k v where kv: "kv = (k, v)" by (cases kv)
  have f: "filter (\<lambda>e. fst e \<noteq> k) (entries c) = []" by (simp add: Cons.prems(3))
  have full: "max_size c \<le> length (filter (\<lambda>e. fst e \<noteq> k) (entries c))"
    by (simp add: Cons.prems(2))
  have r: "CleanUp (callback c) (last ((k, v) # filter (\<lambda>e. fst e \<noteq> k) (entries c))) = Returns"
    unfolding f using Cons.prems(4) by (simp add: kv)
  note st = Put_evicts_state [OF Cons.prems(1) full r, unfolded f]
  obtain r' c' where p: "Put c k v = (r', c')" by (cases "Put c k v")
  from st have r': "r' = Inr ()" and i': "cache_inv c'" and e': "entries c' = []"
    and cl: "cleaned c' = cleaned c @ notified (callback c) (k, v)"
    and o': "max_size c' = max_size c" "callback c' = callback c"
    by (simp_all add: p)
  have ret': "list_all (\<lambda>e. CleanUp (callback c') e = Returns) kvs"
    using Cons.prems(4) by (simp add: o')
  from Cons.IH [OF i' _ e' ret'] Cons.prems(2) show ?case
    by (simp add: kv p r' o' cl)
qed

lemma Put_returns_or_throws:
  assumes inv: "cache_inv c"
  shows "fst (Put c k v) = Inr () \<or> fst (Put c k v) = Inl callback_exception"
proof (cases "length (filter (\<lambda>e. fst e \<noteq> k) (entries c)) < max_size c")
  case True
  from Put_fits(1) [OF inv True] show ?thesis by simp
next
  case False
  then have full: "max_size c \<le> length (filter (\<lambda>e. fst e \<noteq> k) (entries c))" by simp
  from Put_evicts(2,3) [OF inv full, of v] show ?thesis
    by (cases "CleanUp (callback c) (last ((k, v) # filter (\<lambda>e. fst e \<noteq> k) (entries c)))")
      simp_all
qed

lemma Put_returns:
  assumes inv: "cache_inv c" and ret: "\<And>e. CleanUp (callback c) e = Returns"
  shows "fst (Put c k v) = Inr ()"
proof (cases "length (filter (\<lambda>e. fst e \<noteq> k) (entries c)) < max_size c")
  case True
  from Put_fits(1) [OF inv True] show ?thesis .
next
  case False
  then have full: "max_size c \<le> length (filter (\<lambda>e. fst e \<noteq> k) (entries c))" by simp
  from Put_evicts(2) [OF inv full ret] show ?thesis by simp
qed

lemma Get_result:
  assumes inv: "cache_inv c"
  shows "fst (Get c k) = Inl range_error \<or> (\<exists>v. fst (Get c k) = Inr v)"
proof (cases "Exists c k")
  case True
  then obtain v where "(k, v) \<in> set (entries c)" by (auto simp: inv_Exists [OF inv])
  from Get_present [OF inv this] show ?thesis by (metis fst_conv)
next
  case False
  then show ?thesis by (simp add: Get_absent)
qed

lemma run_puts_returns:
  assumes "cache_inv c" "\<And>e. CleanUp (callback c) e = Returns"
  shows "fst (run_puts c kvs) = Inr ()"
  using assms
proof (induction kvs arbitrary: c)
  case Nil
  then show ?case by simp
next
  case (Cons kv kvs)
  obtain k v where kv: "kv = (k, v)" by (cases kv)
  obtain r c' where p: "Put c k v = (r, c')" by (cases "Put c k v")
  from Put_returns [OF Cons.prems, of k v] have r: "r = Inr ()" by (simp add: p)
  from Put_inv(1,3) [OF Cons.prems(1), of k v]
  have "cache_inv c'" "callback c' = callback c" by (simp_all add: p)
  with Cons.prems(2) have "fst (run_puts c' kvs) = Inr ()"
    by (intro Cons.IH) simp_all
  then show ?case by (simp add: kv p r)
qed

section \<open>Properties of the cache\<close>

text \<open>
  Claim C1, as the spec states it: when the cache is at capacity and the eviction
  callback of a \<^verbatim>\<open>Put\<close> throws, the removal of the evicted entry is completed all the
  same, so that after the failing \<^verbatim>\<open>Put\<close> the evicted key is not reachable through
  \<^verbatim>\<open>Exists\<close>, \<^verbatim>\<open>Get\<close> or \<^verbatim>\<open>Size\<close>. \<^verbatim>\<open>Evict\<close> calls the callback before it removes
  anything and catches nothing, so this fails: with capacity 1 and a callback that throws,
  \<^verbatim>\<open>Put(1, 7)\<close> and then \<^verbatim>\<open>Put(2, 8)\<close> ends in the exception, the callback having been
  called on (1, 7), and key 1 is still found by \<^verbatim>\<open>Exists\<close> and \<^verbatim>\<open>Get\<close>, and \<^verbatim>\<open>Size()\<close>
  is 2.
\<close>

theorem failing_callback_counterexample:
  "Size (snd (Put (new_LRUCache 1 (Some (\<lambda>_. Throws))) (1::nat) (7::nat))) =
     max_size (snd (Put (new_LRUCache 1 (Some (\<lambda>_. Throws))) (1::nat) (7::nat))) \<and>
   fst (Put (snd (Put (new_LRUCache 1 (Some (\<lambda>_. Throws))) (1::nat) (7::nat))) 2 8) =
     Inl callback_exception \<and>
   cleaned (snd (Put (snd (Put (new_LRUCache 1 (Some (\<lambda>_. Throws))) (1::nat) (7::nat))) 2 8)) =
     [(1, 7)] \<and>
   Exists (snd (Put (snd (Put (new_LRUCache 1 (Some (\<lambda>_. Throws))) (1::nat) (7::nat))) 2 8)) 1 \<and>
   fst (Get (snd (Put (snd (Put (new_LRUCache 1 (Some (\<lambda>_. Throws))) (1::nat) (7::nat))) 2 8)) 1) =
     Inr 7 \<and>
   Size (snd (Put (snd (Put (new_LRUCache 1 (Some (\<lambda>_. Throws))) (1::nat) (7::nat))) 2 8)) = 2"
  by code_simp

text \<open>
  Claim C1, amended: when the cache is at capacity, the key of a \<^verbatim>\<open>Put\<close> is new and the
  eviction callback throws on the entry chosen for eviction, the \<^verbatim>\<open>Put\<close> ends in the
  callback's exception after one call of the callback, and the eviction has not taken
  place at all: the new entry is in front of the Recency Sequence, the entry chosen for
  eviction is still in the Recency Sequence and in the Key Index (the two agree on their
  keys), it is still found by \<^verbatim>\<open>Exists\<close> and \<^verbatim>\<open>Get\<close>, and \<^verbatim>\<open>Size()\<close> is the capacity
  plus one.
\<close>

theorem failing_callback_Put_keeps_eldest:
  assumes r: "reachable c" and cap: "Size c = max_size c" and new: "\<not> Exists c key"
    and thr: "CleanUp (callback c) (last ((key, value) # entries c)) = Throws"
  shows "fst (Put c key value) = Inl callback_exception \<and>
         cleaned (snd (Put c key value)) = cleaned c @ [last ((key, value) # entries c)] \<and>
         entries (snd (Put c key value)) = (key, value) # entries c \<and>
         Mapping.keys (cache_items_map (snd (Put c key value))) =
           fst ` set (entries (snd (Put c key value))) \<and>
         Exists (snd (Put c key value)) (fst (last ((key, value) # entries c))) \<and>
         fst (Get (snd (Put c key value)) (fst (last ((key, value) # entries c)))) =
           Inr (snd (last ((key, value) # entries c))) \<and>
         Size (snd (Put c key value)) = Suc (max_size c)"
proof -
  let ?e = "last ((key, value) # entries c)"
  let ?c' = "snd (Put c key value)"
  note inv = reachable_inv [OF r]
  note inv' = Put_inv(1) [OF inv, of key "value"]
  have "key \<notin> fst ` set (entries c)" using new by (simp add: inv_Exists [OF inv])
  then have f: "filter (\<lambda>e. fst e \<noteq> key) (entries c) = entries c"
    by (rule filter_key_absent)
  have full: "max_size c \<le> length (filter (\<lambda>e. fst e \<noteq> key) (entries c))"
    unfolding f using cap by (simp add: inv_Size [OF inv])
  note ev = Put_evicts [OF inv full, of "value", unfolded f]
  from ev(3) [OF thr] have x: "fst (Put c key value) = Inl callback_exception"
    and e: "entries ?c' = (key, value) # entries c" by simp_all
  have "callback c \<noteq> None" using thr by (cases "callback c") (simp_all add: CleanUp_def)
  then have cl: "cleaned ?c' = cleaned c @ [?e]"
    using ev(1) by (auto simp: notified_def)
  have mem: "(fst ?e, snd ?e) \<in> set (entries ?c')"
    unfolding e using last_in_set [of "(key, value) # entries c"] by simp
  then have ex: "Exists ?c' (fst ?e)"
    unfolding inv_Exists [OF inv'] by (rule image_eqI [rotated]) simp
  have g: "fst (Get ?c' (fst ?e)) = Inr (snd ?e)"
    using Get_present [OF inv' mem] by (metis fst_conv)
  have sz: "Size ?c' = Suc (max_size c)"
    using cap by (simp add: inv_Size [OF inv'] inv_Size [OF inv] e)
  from x cl e inv_keys [OF inv'] ex g sz show ?thesis by blast
qed

theorem failing_callback_Put_keeps_eldest_witness:
  "reachable (snd (Put (new_LRUCache 1 (Some (\<lambda>_. Throws))) (3::nat) (30::nat))) \<and>
   Size (snd (Put (new_LRUCache 1 (Some (\<lambda>_. Throws))) (3::nat) (30::nat))) =
     max_size (snd (Put (new_LRUCache 1 (Some (\<lambda>_. Throws))) (3::nat) (30::nat))) \<and>
   \<not> Exists (snd (Put (new_LRUCache 1 (Some (\<lambda>_. Throws))) (3::nat) (30::nat))) 4 \<and>
   fst (Put (snd (Put (new_LRUCache 1 (Some (\<lambda>_. Throws))) (3::nat) (30::nat))) 4 40) =
     Inl callback_exception \<and>
   Exists (snd (Put (snd (Put (new_LRUCache 1 (Some (\<lambda>_. Throws))) (3::nat) (30::nat))) 4 40)) 3 \<and>
   fst (Get (snd (Put (snd (Put (new_LRUCache 1 (Some (\<lambda>_. Throws))) (3::nat) (30::nat))) 4 40)) 3) =
     Inr 30"
proof -
  let ?c = "snd (Put (new_LRUCache 1 (Some (\<lambda>_. Throws))) (3::nat) (30::nat))"
  have r: "reachable ?c" by (intro reachable.intros)
  have cap: "Size ?c = max_size ?c" by code_simp
  have new: "\<not> Exists ?c 4" by code_simp
  have thr: "CleanUp (callback ?c) (last ((4, 40) # entries ?c)) = Throws" by code_simp
  have e: "last ((4, 40) # entries ?c) = (3, 30)" by code_simp
  note t = failing_callback_Put_keeps_eldest [OF r cap new thr, unfolded e fst_conv snd_conv]
  from t r cap new show ?thesis by blast
qed

text \<open>
  Claim C2, as the spec states it: after \<open>C + 1\<close> \<^verbatim>\<open>Put\<close> calls with distinct keys on a
  cache of capacity \<open>C \<ge> 1\<close>, the last \<^verbatim>\<open>Put\<close> evicts exactly the first key, and a callback
  that is set is called exactly once in it, on the evicted entry. The call of the
  callback is as stated, the eviction is not: \<^verbatim>\<open>Evict\<close> calls the callback before it
  removes anything and catches nothing. With capacity 2 and a callback that throws,
  \<^verbatim>\<open>Put(1, 7)\<close>, \<^verbatim>\<open>Put(2, 8)\<close> return, and \<^verbatim>\<open>Put(3, 9)\<close> ends in the exception after one
  call of the callback, on (1, 7), with key 1 still in the cache beside keys 2 and 3.
\<close>

theorem Put_beyond_capacity_throwing_counterexample:
  "distinct (map fst [(1::nat, 7::nat), (2, 8)] @ [3]) \<and>
   fst (run_puts (new_LRUCache 2 (Some (\<lambda>_. Throws))) [(1::nat, 7::nat), (2, 8)]) = Inr () \<and>
   fst (Put (snd (run_puts (new_LRUCache 2 (Some (\<lambda>_. Throws))) [(1::nat, 7::nat), (2, 8)])) 3 9) =
     Inl callback_exception \<and>
   cleaned (snd (Put (snd (run_puts (new_LRUCache 2 (Some (\<lambda>_. Throws)))
     [(1::nat, 7::nat), (2, 8)])) 3 9)) = [(1, 7)] \<and>
   Exists (snd (Put (snd (run_puts (new_LRUCache 2 (Some (\<lambda>_. Throws)))
     [(1::nat, 7::nat), (2, 8)])) 3 9)) 1 \<and>
   entries (snd (Put (snd (run_puts (new_LRUCache 2 (Some (\<lambda>_. Throws)))
     [(1::nat, 7::nat), (2, 8)])) 3 9)) = [(3, 9), (2, 8), (1, 7)]"
  by code_simp

text \<open>
  Claim C2, amended: a fresh cache of capacity \<open>C \<ge> 1\<close> takes \<open>C\<close> entries with distinct
  keys \<open>kvs\<close> without calling the callback. In the \<^verbatim>\<open>Put\<close> of a further new key a callback
  that is set is called exactly once, on the first of them, \<open>hd kvs\<close> (\<open>notified cb e\<close> is
  \<open>[e]\<close> when there is a callback and \<open>[]\<close> when there is none); and when this call
  returns, or there is no callback, the \<^verbatim>\<open>Put\<close> returns with exactly this entry evicted:
  its key is gone, the other keys and the new one are present. With \<open>C = 1\<close> this is the
  spec's example: \<^verbatim>\<open>Put(A, v1)\<close>, \<^verbatim>\<open>Put(B, v2)\<close> calls the callback once, on (A, v1).
\<close>

theorem Put_beyond_capacity_evicts_first:
  fixes cb :: "('k \<times> 'v \<Rightarrow> outcome) option" and kvs :: "('k \<times> 'v) list"
    and key :: 'k and "value" :: 'v
  assumes C: "1 \<le> C" and len: "length kvs = C"
    and dist: "distinct (map fst kvs @ [key])"
  defines "c \<equiv> snd (run_puts (new_LRUCache C cb) kvs)"
  shows "fst (run_puts (new_LRUCache C cb) kvs) = Inr () \<and>
         entries c = rev kvs \<and>
         cleaned c = [] \<and>
         cleaned (snd (Put c key value)) = notified cb (hd kvs) \<and>
         (CleanUp cb (hd kvs) = Returns \<longrightarrow>
            fst (Put c key value) = Inr () \<and>
            entries (snd (Put c key value)) = (key, value) # rev (tl kvs) \<and>
            \<not> Exists (snd (Put c key value)) (fst (hd kvs)) \<and>
            (\<forall>k \<in> set (map fst (tl kvs)). Exists (snd (Put c key value)) k) \<and>
            Exists (snd (Put c key value)) key)"
proof -
  from C len obtain kv1 rest where kvs: "kvs = kv1 # rest" by (cases kvs) auto
  have "distinct (map fst kvs)" using dist by simp
  from run_puts_fill [OF new_inv this, of C cb] len
  have 1: "fst (run_puts (new_LRUCache C cb) kvs) = Inr ()"
    and i: "cache_inv c" and e: "entries c = rev kvs" and cl: "cleaned c = []"
    and m: "max_size c = C" and cbk: "callback c = cb"
    by (simp_all add: c_def)
  have new: "key \<notin> fst ` set (entries c)" using dist by (auto simp: e)
  have f: "filter (\<lambda>e. fst e \<noteq> key) (entries c) = rev kvs"
    using filter_key_absent [OF new] e by simp
  have full: "max_size c \<le> length (filter (\<lambda>e. fst e \<noteq> key) (entries c))"
    unfolding f using m len by simp
  have la: "last ((key, value) # rev kvs) = hd kvs" by (simp add: kvs)
  have bl: "butlast ((key, value) # rev kvs) = (key, value) # rev (tl kvs)" by (simp add: kvs)
  note ev = Put_evicts [OF i full, of "value", unfolded f la bl cbk]
  note i2 = Put_inv(1) [OF i, of key "value"]
  have called: "cleaned (snd (Put c key value)) = notified cb (hd kvs)"
    using ev(1) cl by simp
  have evicted: "fst (Put c key value) = Inr () \<and>
      entries (snd (Put c key value)) = (key, value) # rev (tl kvs) \<and>
      \<not> Exists (snd (Put c key value)) (fst (hd kvs)) \<and>
      (\<forall>k \<in> set (map fst (tl kvs)). Exists (snd (Put c key value)) k) \<and>
      Exists (snd (Put c key value)) key"
    if ret: "CleanUp cb (hd kvs) = Returns"
  proof -
    note 2 = ev(2) [OF ret]
    have ex: "Exists (snd (Put c key value)) k \<longleftrightarrow> k = key \<or> k \<in> fst ` set rest" for k
      using 2 by (auto simp: inv_Exists [OF i2] kvs)
    have "fst kv1 \<noteq> key" "fst kv1 \<notin> fst ` set rest" using dist by (auto simp: kvs)
    then have "\<not> Exists (snd (Put c key value)) (fst (hd kvs))" by (simp add: ex kvs)
    moreover have "\<forall>k \<in> set (map fst (tl kvs)). Exists (snd (Put c key value)) k"
      by (simp add: ex kvs)
    moreover have "Exists (snd (Put c key value)) key" by (simp add: ex)
    ultimately show ?thesis using 2 by simp
  qed
  from 1 e cl called evicted show ?thesis by blast
qed

theorem Put_beyond_capacity_evicts_first_witness:
  "distinct (map fst [(1::nat, 7::nat)] @ [2]) \<and>
   CleanUp (Some (\<lambda>_. Returns)) (hd [(1::nat, 7::nat)]) = Returns \<and>
   fst (Put (snd (run_puts (new_LRUCache 1 (Some (\<lambda>_. Returns))) [(1::nat, 7::nat)])) 2 8) =
     Inr () \<and>
   \<not> Exists (snd (Put (snd (run_puts (new_LRUCache 1 (Some (\<lambda>_. Returns))) [(1::nat, 7::nat)])) 2 8)) 1 \<and>
   Exists (snd (Put (snd (run_puts (new_LRUCache 1 (Some (\<lambda>_. Returns))) [(1::nat, 7::nat)])) 2 8)) 2 \<and>
   cleaned (snd (Put (snd (run_puts (new_LRUCache 1 (Some (\<lambda>_. Returns))) [(1::nat, 7::nat)])) 2 8)) =
     [(1, 7)]"
proof -
  have C: "1 \<le> (1::nat)" by (rule le_refl)
  have len: "length [(1::nat, 7::nat)] = 1" by code_simp
  have dist: "distinct (map fst [(1::nat, 7::nat)] @ [2])" by code_simp
  have ret: "CleanUp (Some (\<lambda>_. Returns)) (hd [(1::nat, 7::nat)]) = Returns" by code_simp
  have n: "notified (Some (\<lambda>_. Returns)) (1::nat, 7::nat) = [(1, 7)]"
    by (simp only: notified_def option.case)
  note t = Put_beyond_capacity_evicts_first [OF C len dist, of "Some (\<lambda>_. Returns)" 8,
      unfolded list.sel fst_conv n]
  note r = ret [unfolded list.sel]
  from t r dist ret show ?thesis by blast
qed

text \<open>
  Claim C3. In every state reachable from a freshly constructed cache by calls of
  \<^verbatim>\<open>Put\<close>, \<^verbatim>\<open>Get\<close>, \<^verbatim>\<open>Exists\<close> and \<^verbatim>\<open>Size\<close>, \<^verbatim>\<open>Size()\<close> is the number of keys of the
  Key Index and the number of entries of the Recency Sequence, and the keys of the Key
  Index are the keys of the Recency Sequence (none of them twice). States left behind by
  a call that threw are reachable states here.
\<close>

theorem reachable_index_matches_sequence:
  assumes "reachable c"
  shows "Size c = card (Mapping.keys (cache_items_map c)) \<and>
         Size c = length (cache_items_list c) \<and>
         Mapping.keys (cache_items_map c) = set (map (fst \<circ> snd) (cache_items_list c)) \<and>
         distinct (map (fst \<circ> snd) (cache_items_list c))"
proof -
  note inv = reachable_inv [OF assms]
  have "Size c = card (Mapping.keys (cache_items_map c))"
    by (simp add: Size_def Mapping.size_def)
  moreover have "Size c = length (cache_items_list c)"
    using inv_Size [OF inv] by (simp add: entries_def)
  moreover have "Mapping.keys (cache_items_map c) = set (map (fst \<circ> snd) (cache_items_list c))"
    using inv_keys [OF inv] by (simp add: entries_def image_comp)
  moreover have "distinct (map (fst \<circ> snd) (cache_items_list c))"
    using inv_distinct_keys [OF inv] by (simp add: entries_def)
  ultimately show ?thesis by blast
qed

theorem reachable_index_matches_sequence_witness:
  "reachable (snd (Get (snd (Put (snd (Put (new_LRUCache 2 None) (1::nat) (7::nat))) 2 8)) 1)) \<and>
   Size (snd (Get (snd (Put (snd (Put (new_LRUCache 2 None) (1::nat) (7::nat))) 2 8)) 1)) = 2 \<and>
   length (cache_items_list
     (snd (Get (snd (Put (snd (Put (new_LRUCache 2 None) (1::nat) (7::nat))) 2 8)) 1))) = 2 \<and>
   Mapping.keys (cache_items_map
     (snd (Get (snd (Put (snd (Put (new_LRUCache 2 None) (1::nat) (7::nat))) 2 8)) 1))) = {1, 2} \<and>
   map (fst \<circ> snd) (cache_items_list
     (snd (Get (snd (Put (snd (Put (new_LRUCache 2 None) (1::nat) (7::nat))) 2 8)) 1))) = [1, 2]"
proof -
  let ?c = "snd (Get (snd (Put (snd (Put (new_LRUCache 2 None) (1::nat) (7::nat))) 2 8)) 1)"
  have r: "reachable ?c"
    by (intro reachable.intros)
  have s: "Size ?c = 2" by code_simp
  have l: "map (fst \<circ> snd) (cache_items_list ?c) = [1, 2]" by code_simp
  note t = reachable_index_matches_sequence [OF r]
  have n: "length (cache_items_list ?c) = 2"
    using t [THEN conjunct2, THEN conjunct1] s by (rule trans [OF sym])
  have "Mapping.keys (cache_items_map ?c) = set [1, 2]"
    using t [THEN conjunct2, THEN conjunct2, THEN conjunct1] unfolding l .
  then have k: "Mapping.keys (cache_items_map ?c) = {1, 2}" by simp
  from r s n k l show ?thesis by blast
qed

text \<open>
  Claim C4, as the spec states it: whatever the sequence of \<^verbatim>\<open>Put\<close> calls, after each
  call \<^verbatim>\<open>Size()\<close> is at most the capacity. A \<^verbatim>\<open>Put\<close> whose callback throws leaves its new
  entry in the cache and evicts nothing (claim C1), and a caller that catches the
  exception goes on with a cache above its capacity. With capacity 1 and a callback that
  throws on the entries of key 1: after \<^verbatim>\<open>Put(1, 7)\<close> and the failing \<^verbatim>\<open>Put(2, 8)\<close>,
  \<^verbatim>\<open>Size()\<close> is 2; and after a further failing \<^verbatim>\<open>Put(3, 9)\<close>, the call \<^verbatim>\<open>Put(1, 5)\<close>
  returns normally (it evicts the entry of key 2) and \<^verbatim>\<open>Size()\<close> is 2 still.
\<close>

theorem Size_beyond_capacity_counterexample:
  "max_size (new_LRUCache 1 (Some (\<lambda>e. if fst e = (1::nat) then Throws else Returns))) = 1 \<and>
   fst (Put (snd (Put (new_LRUCache 1 (Some (\<lambda>e. if fst e = (1::nat) then Throws else Returns)))
     1 (7::nat))) 2 8) = Inl callback_exception \<and>
   Size (snd (Put (snd (Put (new_LRUCache 1 (Some (\<lambda>e. if fst e = (1::nat) then Throws else Returns)))
     1 (7::nat))) 2 8)) = 2 \<and>
   fst (Put (snd (Put (snd (Put (snd (Put
     (new_LRUCache 1 (Some (\<lambda>e. if fst e = (1::nat) then Throws else Returns)))
     1 (7::nat))) 2 8)) 3 9)) 1 5) = Inr () \<and>
   Size (snd (Put (snd (Put (snd (Put (snd (Put
     (new_LRUCache 1 (Some (\<lambda>e. if fst e = (1::nat) then Throws else Returns)))
     1 (7::nat))) 2 8)) 3 9)) 1 5)) = 2"
  by code_simp

text \<open>
  Claim C4, amended: whatever the capacity, for every sequence of \<^verbatim>\<open>Put\<close> calls on a
  fresh cache in which no eviction callback throws, each call returns normally and
  \<^verbatim>\<open>Size()\<close> is at most the capacity after it. (Only the callback can make a \<^verbatim>\<open>Put\<close>
  throw; \<open>run_puts\<close> leaves the sequence at the first exception, so a sequence that does
  not end in the callback's exception is one in which no callback has thrown.)
\<close>

theorem Size_within_capacity_after_Puts:
  assumes "fst (run_puts (new_LRUCache n cb) kvs) \<noteq> Inl callback_exception"
  shows "fst (run_puts (new_LRUCache n cb) (take i kvs)) = Inr () \<and>
         Size (snd (run_puts (new_LRUCache n cb) (take i kvs))) \<le> n"
proof -
  have "Size (new_LRUCache n cb) \<le> max_size (new_LRUCache n cb)"
    by (simp add: Size_def new_LRUCache_def)
  from run_puts_within [OF new_inv this assms, of i] show ?thesis
    by (simp add: new_LRUCache_def)
qed

theorem Size_within_capacity_after_Puts_witness:
  "fst (run_puts (new_LRUCache 1 (Some (\<lambda>_. Returns))) [(1::nat, 7::nat), (2, 8), (3, 9)]) \<noteq>
     Inl callback_exception \<and>
   fst (run_puts (new_LRUCache 1 (Some (\<lambda>_. Returns))) (take 2 [(1::nat, 7::nat), (2, 8), (3, 9)])) =
     Inr () \<and>
   Size (snd (run_puts (new_LRUCache 1 (Some (\<lambda>_. Returns)))
     (take 2 [(1::nat, 7::nat), (2, 8), (3, 9)]))) \<le> 1"
proof -
  have h: "fst (run_puts (new_LRUCache 1 (Some (\<lambda>_. Returns))) [(1::nat, 7::nat), (2, 8), (3, 9)]) \<noteq>
     Inl callback_exception"
    by code_simp
  from Size_within_capacity_after_Puts [OF h, of 2] h show ?thesis by blast
qed

text \<open>
  Claim C5, as the spec states it: with capacity 2, after \<^verbatim>\<open>Put(A, _)\<close>, \<^verbatim>\<open>Put(B, _)\<close> and
  a successful \<^verbatim>\<open>Get(A)\<close>, the \<^verbatim>\<open>Put\<close> of a third key evicts \<open>B\<close> and not \<open>A\<close>. The entry
  of \<open>B\<close> is the one chosen, but it is removed only after the callback has returned.
  With a callback that throws, \<^verbatim>\<open>Put(1, 7)\<close>, \<^verbatim>\<open>Put(2, 8)\<close>, \<^verbatim>\<open>Get(1)\<close> and then
  \<^verbatim>\<open>Put(3, 9)\<close>: the last call ends in the exception after one call of the callback, on
  (2, 8), and key 2 is still in the cache, behind keys 3 and 1.
\<close>

theorem Get_refreshes_recency_throwing_counterexample:
  "fst (Get (snd (Put (snd (Put (new_LRUCache 2 (Some (\<lambda>_. Throws))) (1::nat) (7::nat))) 2 8)) 1) =
     Inr 7 \<and>
   fst (Put (snd (Get (snd (Put (snd (Put (new_LRUCache 2 (Some (\<lambda>_. Throws)))
       (1::nat) (7::nat))) 2 8)) 1)) 3 9) = Inl callback_exception \<and>
   cleaned (snd (Put (snd (Get (snd (Put (snd (Put (new_LRUCache 2 (Some (\<lambda>_. Throws)))
       (1::nat) (7::nat))) 2 8)) 1)) 3 9)) = [(2, 8)] \<and>
   Exists (snd (Put (snd (Get (snd (Put (snd (Put (new_LRUCache 2 (Some (\<lambda>_. Throws)))
       (1::nat) (7::nat))) 2 8)) 1)) 3 9)) 2 \<and>
   entries (snd (Put (snd (Get (snd (Put (snd (Put (new_LRUCache 2 (Some (\<lambda>_. Throws)))
       (1::nat) (7::nat))) 2 8)) 1)) 3 9)) = [(3, 9), (1, 7), (2, 8)]"
  by code_simp

text \<open>
  Claim C5, amended: in a fresh cache of capacity 2, after \<^verbatim>\<open>Put(A, a)\<close>, \<^verbatim>\<open>Put(B, b)\<close>
  with distinct keys and a \<^verbatim>\<open>Get(A)\<close>, which returns \<open>a\<close> and calls no callback, the
  \<^verbatim>\<open>Put\<close> of a third key \<open>C\<close> chooses \<open>B\<close> and not \<open>A\<close> for eviction: the callback, if set,
  is called exactly once, on (B, b); and when this call returns, or there is no callback,
  the \<^verbatim>\<open>Put\<close> returns and the cache holds \<open>C\<close> and \<open>A\<close>, in this order, and no longer \<open>B\<close>.
\<close>

theorem Get_refreshes_recency:
  fixes cb :: "('k \<times> 'v \<Rightarrow> outcome) option" and A B C :: 'k and a b v :: 'v
  assumes AB: "A \<noteq> B" and CA: "C \<noteq> A" and CB: "C \<noteq> B"
  defines "c2 \<equiv> snd (Put (snd (Put (new_LRUCache 2 cb) A a)) B b)"
  defines "c3 \<equiv> snd (Get c2 A)"
  shows "fst (Get c2 A) = Inr a \<and>
         cleaned c3 = [] \<and>
         cleaned (snd (Put c3 C v)) = notified cb (B, b) \<and>
         (CleanUp cb (B, b) = Returns \<longrightarrow>
            fst (Put c3 C v) = Inr () \<and>
            \<not> Exists (snd (Put c3 C v)) B \<and>
            Exists (snd (Put c3 C v)) A \<and>
            Exists (snd (Put c3 C v)) C \<and>
            entries (snd (Put c3 C v)) = [(C, v), (A, a)])"
proof -
  let ?c0 = "new_LRUCache 2 cb"
  let ?c1 = "snd (Put ?c0 A a)"
  have 1: "cache_inv ?c1 \<and> entries ?c1 = [(A, a)] \<and> cleaned ?c1 = [] \<and>
           max_size ?c1 = 2 \<and> callback ?c1 = cb"
    using Put_fits_state [OF new_inv, of A 2 cb a] by simp
  then have i1: "cache_inv ?c1" by simp
  have 2: "cache_inv c2 \<and> entries c2 = [(B, b), (A, a)] \<and> cleaned c2 = [] \<and>
           max_size c2 = 2 \<and> callback c2 = cb"
    unfolding c2_def using Put_fits_state [OF i1, of B b] 1 AB by simp
  then have i2: "cache_inv c2" and m2: "(A, a) \<in> set (entries c2)" by simp_all
  from Get_present [OF i2 m2] obtain l where
    g: "Get c2 A = (Inr a, c2\<lparr>cache_items_list := l\<rparr>)"
    and i3': "cache_inv (c2\<lparr>cache_items_list := l\<rparr>)"
    and e3': "map snd l = (A, a) # filter (\<lambda>e. fst e \<noteq> A) (entries c2)" .
  have c3: "c3 = c2\<lparr>cache_items_list := l\<rparr>" by (simp add: c3_def g)
  have i3: "cache_inv c3" using i3' by (simp add: c3)
  have 3: "entries c3 = [(A, a), (B, b)] \<and> cleaned c3 = [] \<and> max_size c3 = 2 \<and> callback c3 = cb"
    using 2 e3' AB by (simp add: c3 entries_def)
  then have cbk: "callback c3 = cb" and cl: "cleaned c3 = []" by simp_all
  have f: "filter (\<lambda>e. fst e \<noteq> C) (entries c3) = [(A, a), (B, b)]"
    using 3 CA CB by auto
  have full: "max_size c3 \<le> length (filter (\<lambda>e. fst e \<noteq> C) (entries c3))"
    unfolding f using 3 by simp
  have la: "last [(C, v), (A, a), (B, b)] = (B, b)"
    and bl: "butlast [(C, v), (A, a), (B, b)] = [(C, v), (A, a)]" by simp_all
  note ev = Put_evicts [OF i3 full, of v, unfolded f la bl cbk]
  note i4 = Put_inv(1) [OF i3, of C v]
  have got: "fst (Get c2 A) = Inr a" by (simp add: g)
  have called: "cleaned (snd (Put c3 C v)) = notified cb (B, b)"
    using ev(1) cl by simp
  have evicted: "fst (Put c3 C v) = Inr () \<and>
      \<not> Exists (snd (Put c3 C v)) B \<and>
      Exists (snd (Put c3 C v)) A \<and>
      Exists (snd (Put c3 C v)) C \<and>
      entries (snd (Put c3 C v)) = [(C, v), (A, a)]"
    if ret: "CleanUp cb (B, b) = Returns"
    using ev(2) [OF ret] AB CA CB by (simp add: inv_Exists [OF i4])
  from got cl called evicted show ?thesis by blast
qed

theorem Get_refreshes_recency_witness:
  "CleanUp (Some (\<lambda>_. Returns)) (2::nat, 8::nat) = Returns \<and>
   fst (Get (snd (Put (snd (Put (new_LRUCache 2 (Some (\<lambda>_. Returns))) (1::nat) (7::nat))) 2 8)) 1) =
     Inr 7 \<and>
   \<not> Exists (snd (Put (snd (Get (snd (Put (snd (Put (new_LRUCache 2 (Some (\<lambda>_. Returns)))
       (1::nat) (7::nat))) 2 8)) 1)) 3 9)) 2 \<and>
   Exists (snd (Put (snd (Get (snd (Put (snd (Put (new_LRUCache 2 (Some (\<lambda>_. Returns)))
       (1::nat) (7::nat))) 2 8)) 1)) 3 9)) 1 \<and>
   entries (snd (Put (snd (Get (snd (Put (snd (Put (new_LRUCache 2 (Some (\<lambda>_. Returns)))
       (1::nat) (7::nat))) 2 8)) 1)) 3 9)) = [(3, 9), (1, 7)] \<and>
   cleaned (snd (Put (snd (Get (snd (Put (snd (Put (new_LRUCache 2 (Some (\<lambda>_. Returns)))
       (1::nat) (7::nat))) 2 8)) 1)) 3 9)) = [(2, 8)]"
proof -
  have AB: "(1::nat) \<noteq> 2" and CA: "(3::nat) \<noteq> 1" and CB: "(3::nat) \<noteq> 2" by simp_all
  have ret: "CleanUp (Some (\<lambda>_. Returns)) (2::nat, 8::nat) = Returns" by code_simp
  have n: "notified (Some (\<lambda>_. Returns)) (2::nat, 8::nat) = [(2, 8)]"
    by (simp only: notified_def option.case)
  note t = Get_refreshes_recency [OF AB CA CB, of "Some (\<lambda>_. Returns)" "7::nat" "8::nat" "9::nat",
      unfolded n]
  from t ret show ?thesis by blast
qed

text \<open>
  Claim C6, as the spec states it: in every cache state, a \<^verbatim>\<open>Put\<close> on a key that is
  present leaves \<^verbatim>\<open>Size()\<close> unchanged and does not call the eviction callback. \<^verbatim>\<open>Put\<close>
  tests \<^verbatim>\<open>Size() > max_size_\<close> after every insertion, also after that of a key that was
  present, so in a cache above its capacity (the state a \<^verbatim>\<open>Put\<close> leaves when its callback
  throws) it evicts. With capacity 1 and a callback that throws on the entries of key 1:
  \<^verbatim>\<open>Put(1, 7)\<close> and the failing \<^verbatim>\<open>Put(2, 8)\<close> leave both keys in the cache; then
  \<^verbatim>\<open>Put(1, 5)\<close>, on a key that is present, returns normally, calls the callback on (2, 8)
  and takes \<^verbatim>\<open>Size()\<close> from 2 to 1.
\<close>

theorem Put_present_key_evicts_counterexample:
  "Exists (snd (Put (snd (Put (new_LRUCache 1 (Some (\<lambda>e. if fst e = (1::nat) then Throws else Returns)))
     1 (7::nat))) 2 8)) 1 \<and>
   Size (snd (Put (snd (Put (new_LRUCache 1 (Some (\<lambda>e. if fst e = (1::nat) then Throws else Returns)))
     1 (7::nat))) 2 8)) = 2 \<and>
   cleaned (snd (Put (snd (Put (new_LRUCache 1 (Some (\<lambda>e. if fst e = (1::nat) then Throws else Returns)))
     1 (7::nat))) 2 8)) = [(1, 7)] \<and>
   fst (Put (snd (Put (snd (Put
     (new_LRUCache 1 (Some (\<lambda>e. if fst e = (1::nat) then Throws else Returns)))
     1 (7::nat))) 2 8)) 1 5) = Inr () \<and>
   Size (snd (Put (snd (Put (snd (Put
     (new_LRUCache 1 (Some (\<lambda>e. if fst e = (1::nat) then Throws else Returns)))
     1 (7::nat))) 2 8)) 1 5)) = 1 \<and>
   cleaned (snd (Put (snd (Put (snd (Put
     (new_LRUCache 1 (Some (\<lambda>e. if fst e = (1::nat) then Throws else Returns)))
     1 (7::nat))) 2 8)) 1 5)) = [(1, 7), (2, 8)]"
  by code_simp

text \<open>
  Claim C6, amended: in every reachable cache state that is within its capacity
  (\<^verbatim>\<open>Size()\<close> at most the capacity), a \<^verbatim>\<open>Put\<close> on a key that is present returns
  normally, replaces the value stored for the key (\<^verbatim>\<open>Get\<close> returns the new one), moves
  the entry to the front of the Recency Sequence with the other entries keeping their
  order, leaves \<^verbatim>\<open>Size()\<close> unchanged and does not call the eviction callback.
\<close>

theorem Put_present_key_overwrites:
  assumes "reachable c" "Size c \<le> max_size c" "Exists c key"
  shows "fst (Put c key value) = Inr () \<and>
         fst (Get (snd (Put c key value)) key) = Inr value \<and>
         entries (snd (Put c key value)) =
           (key, value) # filter (\<lambda>e. fst e \<noteq> key) (entries c) \<and>
         Size (snd (Put c key value)) = Size c \<and>
         cleaned (snd (Put c key value)) = cleaned c"
proof -
  note inv = reachable_inv [OF assms(1)]
  note inv' = Put_inv(1) [OF inv, of key "value"]
  note f = Put_fits [OF inv Put_present_fits [OF inv assms(2,3)], of "value"]
  from assms(3) have k: "key \<in> fst ` set (entries c)" by (simp add: inv_Exists [OF inv])
  have "Size (snd (Put c key value)) = Size c"
    using filter_key_length [OF inv_distinct_keys [OF inv] k]
    by (simp add: inv_Size [OF inv'] inv_Size [OF inv] f(2))
  moreover have "fst (Get (snd (Put c key value)) key) = Inr value"
  proof -
    have "(key, value) \<in> set (entries (snd (Put c key value)))" by (simp add: f(2))
    from Get_present [OF inv' this] show ?thesis by (metis fst_conv)
  qed
  ultimately show ?thesis using f by simp
qed

theorem Put_present_key_overwrites_witness:
  "reachable (snd (Put (snd (Put (new_LRUCache 2 (Some (\<lambda>_. Throws))) (1::nat) (7::nat))) 2 8)) \<and>
   Size (snd (Put (snd (Put (new_LRUCache 2 (Some (\<lambda>_. Throws))) (1::nat) (7::nat))) 2 8)) \<le>
     max_size (snd (Put (snd (Put (new_LRUCache 2 (Some (\<lambda>_. Throws))) (1::nat) (7::nat))) 2 8)) \<and>
   Exists (snd (Put (snd (Put (new_LRUCache 2 (Some (\<lambda>_. Throws))) (1::nat) (7::nat))) 2 8)) 1 \<and>
   fst (Put (snd (Put (snd (Put (new_LRUCache 2 (Some (\<lambda>_. Throws))) (1::nat) (7::nat))) 2 8)) 1 9) =
     Inr () \<and>
   fst (Get (snd (Put (snd (Put (snd (Put (new_LRUCache 2 (Some (\<lambda>_. Throws)))
       (1::nat) (7::nat))) 2 8)) 1 9)) 1) = Inr 9 \<and>
   entries (snd (Put (snd (Put (snd (Put (new_LRUCache 2 (Some (\<lambda>_. Throws)))
       (1::nat) (7::nat))) 2 8)) 1 9)) = [(1, 9), (2, 8)] \<and>
   cleaned (snd (Put (snd (Put (snd (Put (new_LRUCache 2 (Some (\<lambda>_. Throws)))
       (1::nat) (7::nat))) 2 8)) 1 9)) = []"
proof -
  let ?c = "snd (Put (snd (Put (new_LRUCache 2 (Some (\<lambda>_. Throws))) (1::nat) (7::nat))) 2 8)"
  have r: "reachable ?c" by (intro reachable.intros)
  have le: "Size ?c \<le> max_size ?c" by code_simp
  have ex: "Exists ?c 1" by code_simp
  have e: "(1, 9) # filter (\<lambda>e. fst e \<noteq> 1) (entries ?c) = [(1, 9), (2, 8)]" by code_simp
  have cl: "cleaned ?c = []" by code_simp
  note t = Put_present_key_overwrites [OF r le ex, of 9, unfolded e cl]
  from t r le ex show ?thesis by blast
qed

text \<open>
  Claim C7. \<^verbatim>\<open>Get\<close> of a key that is not in the cache (never put, or evicted) throws
  the \<^verbatim>\<open>range_error\<close> (the spec's \<open>KeyNotFound\<close>) and leaves the cache exactly as it
  was: both members, and with them \<^verbatim>\<open>Size()\<close> and the recency order, are unchanged.
\<close>

theorem Get_absent_key_fails_unchanged:
  assumes "\<not> Exists c key"
  shows "Get c key = (Inl range_error, c)"
  using assms by (simp add: Get_def)

theorem Get_absent_key_fails_unchanged_witness:
  "\<not> Exists (snd (Put (snd (Put (new_LRUCache 1 None) (1::nat) (7::nat))) 2 8)) 1 \<and>
   fst (Get (snd (Put (snd (Put (new_LRUCache 1 None) (1::nat) (7::nat))) 2 8)) 1) =
     Inl range_error \<and>
   Size (snd (Get (snd (Put (snd (Put (new_LRUCache 1 None) (1::nat) (7::nat))) 2 8)) 1)) = 1 \<and>
   entries (snd (Get (snd (Put (snd (Put (new_LRUCache 1 None) (1::nat) (7::nat))) 2 8)) 1)) =
     [(2, 8)]"
proof -
  let ?c = "snd (Put (snd (Put (new_LRUCache 1 None) (1::nat) (7::nat))) 2 8)"
  have h: "\<not> Exists ?c 1" by code_simp
  have s: "Size ?c = 1" and e: "entries ?c = [(2, 8)]" by code_simp+
  from Get_absent_key_fails_unchanged [OF h] have "Get ?c 1 = (Inl range_error, ?c)" .
  then have g: "fst (Get ?c 1) = Inl range_error" and "snd (Get ?c 1) = ?c"
    by (simp_all only: fst_conv snd_conv)
  with s e have "Size (snd (Get ?c 1)) = 1" "entries (snd (Get ?c 1)) = [(2, 8)]"
    by (simp_all only:)
  with h g show ?thesis by blast
qed

text \<open>
  Claim C10, as it is stated: a cache of capacity 0 is empty, with \<^verbatim>\<open>Size()\<close> 0, after
  every \<^verbatim>\<open>Put\<close>, each \<^verbatim>\<open>Put\<close> evicting the entry it has just inserted. The entry of a
  \<^verbatim>\<open>Put\<close> whose callback throws stays in the cache (claim C1), and later calls evict
  the eldest entry, not their own. With capacity 0 and a callback that throws on the
  entries of key 1: the failing \<^verbatim>\<open>Put(1, 7)\<close> leaves \<^verbatim>\<open>Size()\<close> 1, and after a further
  failing \<^verbatim>\<open>Put(2, 8)\<close> the call \<^verbatim>\<open>Put(1, 9)\<close> returns normally, having called the
  callback on (2, 8), with its own entry (1, 9) in the cache and \<^verbatim>\<open>Size()\<close> 1.
\<close>

theorem capacity_zero_not_empty_counterexample:
  "fst (Put (new_LRUCache 0 (Some (\<lambda>e. if fst e = (1::nat) then Throws else Returns))) 1 (7::nat)) =
     Inl callback_exception \<and>
   Size (snd (Put (new_LRUCache 0 (Some (\<lambda>e. if fst e = (1::nat) then Throws else Returns)))
     1 (7::nat))) = 1 \<and>
   fst (Put (snd (Put (snd (Put
     (new_LRUCache 0 (Some (\<lambda>e. if fst e = (1::nat) then Throws else Returns)))
     1 (7::nat))) 2 8)) 1 9) = Inr () \<and>
   entries (snd (Put (snd (Put (snd (Put
     (new_LRUCache 0 (Some (\<lambda>e. if fst e = (1::nat) then Throws else Returns)))
     1 (7::nat))) 2 8)) 1 9)) = [(1, 9)] \<and>
   Size (snd (Put (snd (Put (snd (Put
     (new_LRUCache 0 (Some (\<lambda>e. if fst e = (1::nat) then Throws else Returns)))
     1 (7::nat))) 2 8)) 1 9)) = 1 \<and>
   cleaned (snd (Put (snd (Put (snd (Put
     (new_LRUCache 0 (Some (\<lambda>e. if fst e = (1::nat) then Throws else Returns)))
     1 (7::nat))) 2 8)) 1 9)) = [(1, 7), (1, 7), (2, 8)]"
  by code_simp

text \<open>
  Claim C10, amended: the constructor takes the capacity 0 as it takes any other. On a
  fresh cache of capacity 0, in every sequence of \<^verbatim>\<open>Put\<close> calls in which the callback, if
  set, returns on the entries that are put, every \<^verbatim>\<open>Put\<close> inserts its entry and evicts it
  at once: the callback is called on the very entry of each \<^verbatim>\<open>Put\<close>, in the order of the
  calls, and after every \<^verbatim>\<open>Put\<close> the cache is empty and \<^verbatim>\<open>Size()\<close> is 0.
\<close>

theorem capacity_zero_evicts_every_Put:
  assumes "list_all (\<lambda>e. CleanUp cb e = Returns) kvs"
  shows "max_size (new_LRUCache 0 cb) = 0 \<and>
         fst (run_puts (new_LRUCache 0 cb) kvs) = Inr () \<and>
         entries (snd (run_puts (new_LRUCache 0 cb) kvs)) = [] \<and>
         Size (snd (run_puts (new_LRUCache 0 cb) kvs)) = 0 \<and>
         cleaned (snd (run_puts (new_LRUCache 0 cb) kvs)) = concat (map (notified cb) kvs)"
  using run_puts_capacity_zero [OF new_inv, of 0 cb kvs] assms by simp

theorem capacity_zero_evicts_every_Put_witness:
  "list_all (\<lambda>e. CleanUp (Some (\<lambda>_. Returns)) e = Returns) [(1::nat, 7::nat), (2, 8)] \<and>
   fst (run_puts (new_LRUCache 0 (Some (\<lambda>_. Returns))) [(1::nat, 7::nat), (2, 8)]) = Inr () \<and>
   Size (snd (run_puts (new_LRUCache 0 (Some (\<lambda>_. Returns))) [(1::nat, 7::nat), (2, 8)])) = 0 \<and>
   cleaned (snd (run_puts (new_LRUCache 0 (Some (\<lambda>_. Returns))) [(1::nat, 7::nat), (2, 8)])) =
     [(1, 7), (2, 8)]"
proof -
  have h: "list_all (\<lambda>e. CleanUp (Some (\<lambda>_. Returns)) e = Returns) [(1::nat, 7::nat), (2, 8)]"
    by code_simp
  have n: "concat (map (notified (Some (\<lambda>_. Returns))) [(1::nat, 7::nat), (2, 8)]) =
           [(1, 7), (2, 8)]"
    by code_simp
  note t = capacity_zero_evicts_every_Put [OF h, unfolded n]
  from t h show ?thesis by blast
qed


section \<open>Tokens and numbers\<close>

declare show_nat.simps [simp del]
declare Tokenize_loop.simps [simp del]

lemma find_from_none: "\<forall>x \<in> set xs. \<not> P x \<Longrightarrow> find_from P xs i = None"
  by (induction xs arbitrary: i) auto

lemma find_from_append:
  "\<forall>x \<in> set xs. \<not> P x \<Longrightarrow> find_from P (xs @ ys) i = find_from P ys (i + length xs)"
  by (induction xs arbitrary: i) auto

lemma find_eq_none: "d \<notin> set xs \<Longrightarrow> find_from (\<lambda>x. x = d) xs i = None"
  by (rule find_from_none) auto

lemma find_eq_append:
  "d \<notin> set xs \<Longrightarrow>
   find_from (\<lambda>x. x = d) (xs @ ys) i = find_from (\<lambda>x. x = d) ys (i + length xs)"
  by (rule find_from_append) auto

lemma Tokenize_loop_last:
  assumes "s \<le> length str" "d \<notin> set (drop s str)"
  shows "Tokenize_loop str d (Some s) token_v = token_v @ [drop s str]"
proof -
  have "find_char str d s = None"
    using assms(2) by (simp add: find_char_def find_eq_none)
  then show ?thesis
    by (simp add: Tokenize_loop.simps [of str d "Some s"] Tokenize_loop.simps [of str d None]
        find_first_not_of_def substr_def)
qed

lemma Tokenize_loop_token:
  assumes "d \<notin> set tok" "d \<notin> set rest" "rest \<noteq> []"
  shows "Tokenize_loop (pre @ tok @ d # rest) d (Some (length pre)) token_v =
         token_v @ [tok, rest]"
proof -
  let ?str = "pre @ tok @ d # rest"
  have e: "find_char ?str d (length pre) = Some (length pre + length tok)"
    using assms(1) by (simp add: find_char_def find_eq_append)
  have t: "substr ?str (length pre) (Some (length pre + length tok)) = tok"
    by (simp add: substr_def)
  obtain r rs where rest: "rest = r # rs" using assms(3) by (cases rest) auto
  with assms(2) have "r \<noteq> d" by auto
  then have n: "find_first_not_of ?str d (Some (length pre + length tok)) =
             Some (Suc (length pre + length tok))"
    by (simp add: find_first_not_of_def rest)
  have "Tokenize_loop ?str d (Some (length pre)) token_v =
        Tokenize_loop ?str d (Some (Suc (length pre + length tok))) (token_v @ [tok])"
    by (subst Tokenize_loop.simps) (simp add: e t n)
  also have "\<dots> = (token_v @ [tok]) @ [drop (Suc (length pre + length tok)) ?str]"
    by (rule Tokenize_loop_last) (use assms(2) in simp_all)
  also have "\<dots> = token_v @ [tok, rest]" by simp
  finally show ?thesis .
qed

lemma Tokenize_two:
  assumes "host \<noteq> []" "d \<notin> set host" "tok \<noteq> []" "d \<notin> set tok"
  shows "Tokenize (host @ d # tok) d = [host, tok]"
proof -
  obtain h hs where host: "host = h # hs" using assms(1) by (cases host) auto
  with assms(2) have "h \<noteq> d" by auto
  then have "find_first_not_of (host @ d # tok) d (Some 0) = Some 0"
    by (simp add: find_first_not_of_def host)
  with Tokenize_loop_token [OF assms(2,4,3), of "[]" "[]"] show ?thesis
    by (simp add: Tokenize_def)
qed

lemma Tokenize_leading_delimiter:
  assumes "tok \<noteq> []" "d \<notin> set tok"
  shows "Tokenize (d # tok) d = [tok]"
proof -
  obtain t ts where tok: "tok = t # ts" using assms(1) by (cases tok) auto
  with assms(2) have "t \<noteq> d" by auto
  then have "find_first_not_of (d # tok) d (Some 0) = Some 1"
    by (simp add: find_first_not_of_def tok)
  with Tokenize_loop_last [of 1 "d # tok" d "[]"] assms(2) show ?thesis
    by (simp add: Tokenize_def)
qed

lemma Tokenize_no_delimiter:
  assumes "str \<noteq> []" "d \<notin> set str"
  shows "Tokenize str d = [str]"
proof -
  obtain t ts where str: "str = t # ts" using assms(1) by (cases str) auto
  with assms(2) have "t \<noteq> d" by auto
  then have "find_first_not_of str d (Some 0) = Some 0"
    by (simp add: find_first_not_of_def str)
  with Tokenize_loop_last [of 0 str d "[]"] assms(2) show ?thesis
    by (simp add: Tokenize_def)
qed


lemma digit_index: "(d::nat) < 10 \<Longrightarrow> d \<in> set [0, 1, 2, 3, 4, 5, 6, 7, 8, 9]"
  by (simp) arith

lemma digit_value_digit: "d < 10 \<Longrightarrow> digit_value (digit_chars ! d) = d"
  using digit_index [of d] by (auto simp: digit_value_def digit_chars_def)

lemma digit_is_digit: "d < 10 \<Longrightarrow> isdigit (digit_chars ! d)"
  unfolding isdigit_def by (rule nth_mem) (simp add: digit_chars_def)

lemma isdigit_plain:
  "isdigit c \<Longrightarrow> \<not> isspace c \<and> c \<noteq> CHR ''-'' \<and> c \<noteq> CHR ''+'' \<and> c \<noteq> CHR '':''"
  by (auto simp: isdigit_def digit_chars_def isspace_def)

lemma show_nat_isdigit: "c \<in> set (show_nat n) \<Longrightarrow> isdigit c"
proof (induction n arbitrary: c rule: show_nat.induct)
  case (1 n)
  show ?case
  proof (cases "n < 10")
    case True
    with "1.prems" show ?thesis
      by (simp add: show_nat.simps [of n] digit_is_digit)
  next
    case False
    with "1.prems" "1.IH" show ?thesis
      by (auto simp: show_nat.simps [of n] digit_is_digit)
  qed
qed

lemma show_nat_nonempty: "show_nat n \<noteq> []"
  by (simp add: show_nat.simps [of n])

lemma show_nat_value: "foldl (\<lambda>a c. 10 * a + digit_value c) 0 (show_nat n) = n"
proof (induction n rule: show_nat.induct)
  case (1 n)
  show ?case
  proof (cases "n < 10")
    case True
    then show ?thesis
      by (simp add: show_nat.simps [of n] digit_value_digit)
  next
    case False
    with "1.IH" show ?thesis
      by (simp add: show_nat.simps [of n] digit_value_digit)
  qed
qed

lemma leading_digits_digits:
  assumes "ds \<noteq> []" "\<forall>c \<in> set ds. isdigit c"
  shows "dropWhile isspace ds = ds" and "leading_digits ds = ds"
proof -
  obtain c cs where ds: "ds = c # cs" using assms(1) by (cases ds) auto
  with assms(2) isdigit_plain [of c] have c: "\<not> isspace c" "c \<noteq> CHR ''-''" "c \<noteq> CHR ''+''"
    by auto
  then show 1: "dropWhile isspace ds = ds" by (simp add: ds)
  have "skip_sign ds = ds" using c by (simp add: skip_sign_def ds)
  with 1 assms(2) show "leading_digits ds = ds"
    by (simp add: leading_digits_def)
qed

lemma leading_digits_minus:
  assumes "\<forall>c \<in> set ds. isdigit c"
  shows "dropWhile isspace (CHR ''-'' # ds) = CHR ''-'' # ds"
    and "leading_digits (CHR ''-'' # ds) = ds"
proof -
  show 1: "dropWhile isspace (CHR ''-'' # ds) = CHR ''-'' # ds"
    by (simp add: isspace_def)
  show "leading_digits (CHR ''-'' # ds) = ds"
    unfolding leading_digits_def 1 using assms by (simp add: skip_sign_def)
qed

lemma not_isspace_minus: "\<not> isspace CHR ''-''"
  by (simp add: isspace_def)

lemma stoi_digits:
  assumes "ds \<noteq> []" "\<forall>c \<in> set ds. isdigit c"
  shows "stoi ds =
    (if 2 ^ 31 - 1 < int (foldl (\<lambda>a c. 10 * a + digit_value c) 0 ds) then Inl out_of_range
     else Inr (word_of_int (int (foldl (\<lambda>a c. 10 * a + digit_value c) 0 ds))))"
proof -
  obtain c cs where ds: "ds = c # cs" using assms(1) by (cases ds) auto
  with assms(2) isdigit_plain [of c] have "c \<noteq> CHR ''-''" by auto
  then have n: "(case ds of [] \<Rightarrow> False | c # _ \<Rightarrow> c = CHR ''-'') = False"
    by (simp add: ds)
  have "\<not> int (foldl (\<lambda>a c. 10 * a + digit_value c) 0 ds) < - (2 ^ 31)" by simp
  then show ?thesis
    unfolding stoi_def leading_digits_digits [OF assms] n Let_def
    using assms(1) by simp
qed

lemma stoi_minus_digits:
  assumes "ds \<noteq> []" "\<forall>c \<in> set ds. isdigit c"
  shows "stoi (CHR ''-'' # ds) =
    (if - int (foldl (\<lambda>a c. 10 * a + digit_value c) 0 ds) < - (2 ^ 31) then Inl out_of_range
     else Inr (word_of_int (- int (foldl (\<lambda>a c. 10 * a + digit_value c) 0 ds))))"
proof -
  have n: "(case CHR ''-'' # ds of [] \<Rightarrow> False | c # _ \<Rightarrow> c = CHR ''-'') = True"
    by simp
  have "\<not> 2 ^ 31 - 1 < - int (foldl (\<lambda>a c. 10 * a + digit_value c) 0 ds)" by simp
  then show ?thesis
    unfolding stoi_def leading_digits_minus [OF assms(2)] n Let_def
    using assms(1) by simp
qed

lemma stoi_show_int:
  assumes "- (2 ^ 31) \<le> i" "i < 2 ^ 31"
  shows "stoi (show_int i) = Inr (word_of_int i)"
proof (cases "i < 0")
  case True
  let ?ds = "show_nat (nat (- i))"
  have d: "\<forall>c \<in> set ?ds. isdigit c" by (simp add: show_nat_isdigit)
  have v: "- int (foldl (\<lambda>a c. 10 * a + digit_value c) 0 ?ds) = i"
    using True by (simp add: show_nat_value)
  have "stoi (show_int i) = stoi (CHR ''-'' # ?ds)" using True by (simp add: show_int_def)
  also have "\<dots> = Inr (word_of_int i)"
    unfolding stoi_minus_digits [OF show_nat_nonempty d] v using assms(1) by simp
  finally show ?thesis .
next
  case False
  let ?ds = "show_nat (nat i)"
  have d: "\<forall>c \<in> set ?ds. isdigit c" by (simp add: show_nat_isdigit)
  have v: "int (foldl (\<lambda>a c. 10 * a + digit_value c) 0 ?ds) = i"
    using False by (simp add: show_nat_value)
  have "stoi (show_int i) = stoi ?ds" using False by (simp add: show_int_def)
  also have "\<dots> = Inr (word_of_int i)"
    unfolding stoi_digits [OF show_nat_nonempty d] v using assms(2) by simp
  finally show ?thesis .
qed

lemma stoi_show_sint: "stoi (show_int (sint (p :: 32 word))) = Inr p"
proof -
  have "- (2 ^ 31) \<le> sint p" "sint p < 2 ^ 31"
    using sint_ge [of p] sint_lt [of p] by simp_all
  from stoi_show_int [OF this] show ?thesis by simp
qed

lemma show_int_no_colon: "CHR '':'' \<notin> set (show_int i)"
proof -
  have "CHR '':'' \<notin> set (show_nat n)" for n
    using isdigit_plain [of "CHR '':''"] show_nat_isdigit [of "CHR '':''" n] by blast
  then show ?thesis by (simp add: show_int_def)
qed

lemma show_int_nonempty: "show_int i \<noteq> []"
  by (simp add: show_int_def show_nat_nonempty)

section \<open>Properties of the key format\<close>

text \<open>
  Claim C8, as the spec states it: for every host without \<open>:\<close> and every port, parsing
  the combined form gives the pair back. \<^verbatim>\<open>Tokenize\<close> skips the delimiters in front of the
  first token, so the empty host is lost: the combined form of (\<open>\<close>, 80) is \<^verbatim>\<open>:80\<close>, its
  only token is \<^verbatim>\<open>80\<close>, and \<^verbatim>\<open>Retrive\<close> reads \<^verbatim>\<open>strs[1]\<close> of a vector of one element.
\<close>

theorem Retrive_Combined_empty_host_counterexample:
  "CHR '':'' \<notin> set ('''' :: string) \<and> Retrive (Combined ('''', 80)) = Inl undefined_behaviour"
proof -
  have "show_int (sint (80 :: 32 word)) = ''80''"
    by (simp add: show_int_def show_nat.simps digit_chars_def)
  then have "Tokenize (Combined ('''', 80)) CHR '':'' = [''80'']"
    by (simp add: Combined_def Tokenize_leading_delimiter)
  then show ?thesis
    by (simp add: Retrive_def vector_at_def)
qed

text \<open>
  Claim C8, amended: for every non-empty host without \<open>:\<close> and every port (any 32-bit
  \<^verbatim>\<open>int\<close>, negative ones included), parsing the combined form of (host, port) gives
  exactly (host, port).
\<close>

theorem Retrive_Combined_nonempty_host:
  assumes "host \<noteq> []" "CHR '':'' \<notin> set host"
  shows "Retrive (Combined (host, port)) = Inr (host, port)"
proof -
  have "Tokenize (host @ CHR '':'' # show_int (sint port)) CHR '':'' =
        [host, show_int (sint port)]"
    using assms show_int_nonempty show_int_no_colon by (rule Tokenize_two)
  then show ?thesis
    by (simp add: Retrive_def Combined_def vector_at_def stoi_show_sint)
qed

theorem Retrive_Combined_nonempty_host_witness:
  "''127.0.0.1'' \<noteq> [] \<and> CHR '':'' \<notin> set ''127.0.0.1'' \<and>
   Combined (''127.0.0.1'', 80) = ''127.0.0.1:80'' \<and>
   Retrive ''127.0.0.1:80'' = Inr (''127.0.0.1'', 80)"
proof -
  have h: "''127.0.0.1'' \<noteq> []" and n: "CHR '':'' \<notin> set ''127.0.0.1''" by simp_all
  have c: "Combined (''127.0.0.1'', 80) = ''127.0.0.1:80''" by code_simp
  note t = Retrive_Combined_nonempty_host [OF h n, of 80, unfolded c]
  from t h n c show ?thesis by blast
qed




end
